theory Spec2Isabelle
  imports Main
begin

section \<open>The payload type and raw storage\<close>

text \<open>
  The container of \<^verbatim>\<open>vector.h\<close> is a template over a payload type \<^verbatim>\<open>T\<close>.  The
  payload's own operations are not part of the repository, so they are parameters of the
  model: the type traits the code consults, and for each constructor and assignment
  operator of \<^verbatim>\<open>T\<close> whether it throws on a given source value.  A successful copy or
  move puts the source's value into the destination; a move leaves \<open>moved_from x\<close> behind
  in the source.

  A slot of a storage block is either raw memory or holds a constructed object.
  Sizes and capacities are natural numbers: a block of \<open>2 ^ 63\<close> constructed objects
  does not fit any address space, so \<^verbatim>\<open>Capacity() * 2\<close> is computed without wrap-around.
  Allocation itself is taken to succeed, and a block requested for \<open>n\<close> slots has \<open>n\<close>
  slots: the byte count \<^verbatim>\<open>n * sizeof(T)\<close> that \<^verbatim>\<open>Allocate\<close> computes is not modelled.
\<close>

datatype 'a slot = Raw | Live 'a

record 'a payload =
  nothrow_move_constructible :: bool
  copy_constructible :: bool
  nothrow_move_assignable :: bool
  value_init :: "'a option"
  copy_ctor_throws :: "'a \<Rightarrow> bool"
  move_ctor_throws :: "'a \<Rightarrow> bool"
  copy_assign_throws :: "'a \<Rightarrow> bool"
  move_assign_throws :: "'a \<Rightarrow> bool"
  moved_from :: "'a \<Rightarrow> 'a"

text \<open>
  An operation either returns (\<open>Done\<close>, with its return value and the state it leaves),
  lets an exception of the payload escape (\<open>Thrown\<close>, with the state the caller then
  observes), or leaves defined behaviour (\<open>Abort\<close>): a failed \<^verbatim>\<open>assert\<close>, an access to
  a slot that holds no object or lies outside its block, \<^verbatim>\<open>std::terminate\<close>.  The
  container itself checks nothing but its assertions; the other \<open>Abort\<close> branches of the
  model mark where the C++ program would have undefined behaviour.
\<close>

datatype ('r, 's) result = Done 'r 's | Thrown 's | Abort

definition slot_read :: "'a slot list \<Rightarrow> nat \<Rightarrow> 'a option" where
  "slot_read b i = (if i < length b then (case b ! i of Live x \<Rightarrow> Some x | Raw \<Rightarrow> None) else None)"

subsection \<open>The standard algorithms the container calls\<close>

text \<open>
  Positions are offsets into a block.  The \<^verbatim>\<open>uninitialized_*\<close> algorithms destroy what
  they have constructed when a constructor throws; in the model the unwinding of the
  recursion does that.  The assigning algorithms leave their partial work in place.
\<close>

definition destroy_at :: "'a slot list \<Rightarrow> nat \<Rightarrow> 'a slot list option" where
  "destroy_at b i = (case slot_read b i of None \<Rightarrow> None | Some x \<Rightarrow> Some (b[i := Raw]))"

fun destroy_n :: "'a slot list \<Rightarrow> nat \<Rightarrow> nat \<Rightarrow> 'a slot list option" where
  "destroy_n b first 0 = Some b"
| "destroy_n b first (Suc n) =
     (case destroy_at b first of None \<Rightarrow> None | Some b' \<Rightarrow> destroy_n b' (Suc first) n)"

fun uninitialized_value_construct_n ::
  "'a payload \<Rightarrow> 'a slot list \<Rightarrow> nat \<Rightarrow> nat \<Rightarrow> (unit, 'a slot list) result" where
  "uninitialized_value_construct_n P b first 0 = Done () b"
| "uninitialized_value_construct_n P b first (Suc n) =
     (if length b \<le> first then Abort
      else case value_init P of
        None \<Rightarrow> Thrown b
      | Some x \<Rightarrow>
          (case uninitialized_value_construct_n P (b[first := Live x]) (Suc first) n of
             Done u b' \<Rightarrow> Done () b'
           | Thrown b' \<Rightarrow> Thrown (b'[first := Raw])
           | Abort \<Rightarrow> Abort))"

fun uninitialized_copy_n ::
  "'a payload \<Rightarrow> 'a slot list \<Rightarrow> nat \<Rightarrow> nat \<Rightarrow> 'a slot list \<Rightarrow> nat \<Rightarrow> (unit, 'a slot list) result" where
  "uninitialized_copy_n P src first 0 dst d_first = Done () dst"
| "uninitialized_copy_n P src first (Suc n) dst d_first =
     (if length dst \<le> d_first then Abort
      else case slot_read src first of
        None \<Rightarrow> Abort
      | Some x \<Rightarrow>
          if copy_ctor_throws P x then Thrown dst
          else (case uninitialized_copy_n P src (Suc first) n (dst[d_first := Live x]) (Suc d_first) of
                  Done u dst' \<Rightarrow> Done () dst'
                | Thrown dst' \<Rightarrow> Thrown (dst'[d_first := Raw])
                | Abort \<Rightarrow> Abort))"

fun uninitialized_move_n ::
  "'a payload \<Rightarrow> 'a slot list \<Rightarrow> nat \<Rightarrow> nat \<Rightarrow> 'a slot list \<Rightarrow> nat
     \<Rightarrow> (unit, 'a slot list \<times> 'a slot list) result" where
  "uninitialized_move_n P src first 0 dst d_first = Done () (src, dst)"
| "uninitialized_move_n P src first (Suc n) dst d_first =
     (if length dst \<le> d_first then Abort
      else case slot_read src first of
        None \<Rightarrow> Abort
      | Some x \<Rightarrow>
          if move_ctor_throws P x then Thrown (src, dst)
          else (case uninitialized_move_n P (src[first := Live (moved_from P x)]) (Suc first) n
                       (dst[d_first := Live x]) (Suc d_first) of
                  Done u (src', dst') \<Rightarrow> Done () (src', dst')
                | Thrown (src', dst') \<Rightarrow> Thrown (src', dst'[d_first := Raw])
                | Abort \<Rightarrow> Abort))"

text \<open>\<^verbatim>\<open>std::copy_n\<close> from another block: copy assignment onto constructed objects.\<close>

fun copy_n ::
  "'a payload \<Rightarrow> 'a slot list \<Rightarrow> nat \<Rightarrow> nat \<Rightarrow> 'a slot list \<Rightarrow> nat \<Rightarrow> (unit, 'a slot list) result" where
  "copy_n P src first 0 dst d_first = Done () dst"
| "copy_n P src first (Suc n) dst d_first =
     (case (slot_read src first, slot_read dst d_first) of
        (Some x, Some y) \<Rightarrow>
          if copy_assign_throws P x then Thrown dst
          else copy_n P src (Suc first) n (dst[d_first := Live x]) (Suc d_first)
      | _ \<Rightarrow> Abort)"



fun move_backward :: "'a payload \<Rightarrow> 'a slot list \<Rightarrow> nat \<Rightarrow> nat \<Rightarrow> nat \<Rightarrow> (unit, 'a slot list) result" where
  "move_backward P b first 0 d_last = Done () b"
| "move_backward P b first (Suc n) d_last =
     (if d_last = 0 then Abort
      else case (slot_read b (first + n), slot_read b (d_last - 1)) of
        (Some x, Some y) \<Rightarrow>
          if move_assign_throws P x then Thrown b
          else move_backward P (b[d_last - 1 := Live x, first + n := Live (moved_from P x)]) first n (d_last - 1)
      | _ \<Rightarrow> Abort)"


section \<open>RawMemory\<close>

text \<open>
  \<^verbatim>\<open>RawMemory<T>\<close> holds the pointer \<^verbatim>\<open>buffer_\<close> and \<^verbatim>\<open>capacity_\<close>.  The block is owned
  by exactly one \<^verbatim>\<open>RawMemory\<close> (copying is deleted), so the model keeps the
  slots the pointer refers to next to the pointer, in \<open>m_slots\<close>.  Pointer \<open>0\<close> is
  \<^verbatim>\<open>nullptr\<close>.  The allocator is a counter of the blocks handed out so far; block
  number \<open>k\<close> has address \<open>k\<close>.  (Isabelle does not accept names that end in an underscore:
  \<open>m_buffer\<close> is \<^verbatim>\<open>buffer_\<close>, \<open>v_size\<close> is \<^verbatim>\<open>size_\<close>, and so on.)
\<close>

record 'a RawMemory =
  m_buffer :: nat
  m_capacity :: nat
  m_slots :: "'a slot list"

definition Allocate :: "nat \<Rightarrow> nat \<Rightarrow> nat \<times> nat" where
  "Allocate n h = (if n \<noteq> 0 then (Suc h, Suc h) else (0, h))"

definition RawMemory_default :: "'a RawMemory" where
  "RawMemory_default = \<lparr>m_buffer = 0, m_capacity = 0, m_slots = []\<rparr>"

definition RawMemory_sized :: "nat \<Rightarrow> nat \<Rightarrow> 'a RawMemory \<times> nat" where
  "RawMemory_sized capacity h =
     (case Allocate capacity h of
        (p, h') \<Rightarrow> (\<lparr>m_buffer = p, m_capacity = capacity, m_slots = replicate capacity Raw\<rparr>, h'))"

text \<open>
  The move constructor gives the new object and the source it leaves.  Move assignment
  between two distinct objects gives the target and the source it leaves; the target's
  former block is released.  \<^verbatim>\<open>std::exchange(obj, new_value)\<close> on storage blocks moves
  \<open>obj\<close> out, move-assigns the new value to it, and gives the old value and \<open>obj\<close>.
\<close>

definition RawMemory_move :: "'a RawMemory \<Rightarrow> 'a RawMemory \<times> 'a RawMemory" where
  "RawMemory_move other = (other, RawMemory_default)"

definition RawMemory_move_assign :: "'a RawMemory \<Rightarrow> 'a RawMemory \<Rightarrow> 'a RawMemory \<times> 'a RawMemory" where
  "RawMemory_move_assign this other = (other, RawMemory_default)"

definition exchange_RawMemory :: "'a RawMemory \<Rightarrow> 'a RawMemory \<Rightarrow> 'a RawMemory \<times> 'a RawMemory" where
  "exchange_RawMemory obj new_value =
     (case RawMemory_move obj of
        (old_value, obj1) \<Rightarrow>
          (case RawMemory_move_assign obj1 new_value of
             (obj2, moved) \<Rightarrow> (old_value, obj2)))"

section \<open>Vector\<close>

record 'a Vector =
  v_data :: "'a RawMemory"
  v_size :: nat

text \<open>
  Vector objects live at addresses, so that \<^verbatim>\<open>this != &rhs\<close> is a comparison of
  addresses.  A reference argument is either to an object outside every container or to
  element \<open>i\<close> of the container at an address.
\<close>

record 'a machine =
  objs :: "nat \<Rightarrow> 'a Vector"
  heap :: nat

datatype 'a ref = Ext 'a | Elem nat nat

datatype 'a arg = CopyOf "'a ref" | MoveOf "'a ref"

definition Size :: "nat \<Rightarrow> 'a machine \<Rightarrow> nat" where
  "Size this s = v_size (objs s this)"

definition Capacity :: "nat \<Rightarrow> 'a machine \<Rightarrow> nat" where
  "Capacity this s = m_capacity (v_data (objs s this))"

definition set_slots :: "nat \<Rightarrow> 'a slot list \<Rightarrow> 'a machine \<Rightarrow> 'a machine" where
  "set_slots this b s =
     s\<lparr>objs := (objs s)(this := (objs s this)\<lparr>v_data := (v_data (objs s this))\<lparr>m_slots := b\<rparr>\<rparr>)\<rparr>"

definition set_size :: "nat \<Rightarrow> nat \<Rightarrow> 'a machine \<Rightarrow> 'a machine" where
  "set_size this n s = s\<lparr>objs := (objs s)(this := (objs s this)\<lparr>v_size := n\<rparr>)\<rparr>"

definition slots_of :: "nat \<Rightarrow> 'a machine \<Rightarrow> 'a slot list" where
  "slots_of this s = m_slots (v_data (objs s this))"

text \<open>\<^verbatim>\<open>operator[]\<close>, with its assertion.\<close>

definition at :: "nat \<Rightarrow> nat \<Rightarrow> 'a machine \<Rightarrow> 'a option" where
  "at this index s = (if index < Size this s then slot_read (slots_of this s) index else None)"

subsection \<open>Constructors and destructor\<close>

definition Vector_default :: "'a Vector" where
  "Vector_default = \<lparr>v_data = RawMemory_default, v_size = 0\<rparr>"

definition Vector_sized :: "'a payload \<Rightarrow> nat \<Rightarrow> nat \<Rightarrow> ('a Vector, nat) result" where
  "Vector_sized P n h =
     (case RawMemory_sized n h of
        (m, h') \<Rightarrow>
          (case uninitialized_value_construct_n P (m_slots m) 0 n of
             Done u b \<Rightarrow> Done \<lparr>v_data = m\<lparr>m_slots := b\<rparr>, v_size = n\<rparr> h'
           | Thrown b \<Rightarrow> Thrown h'
           | Abort \<Rightarrow> Abort))"

definition Vector_copy :: "'a payload \<Rightarrow> 'a Vector \<Rightarrow> nat \<Rightarrow> ('a Vector, nat) result" where
  "Vector_copy P other h =
     (case RawMemory_sized (v_size other) h of
        (m, h') \<Rightarrow>
          (case uninitialized_copy_n P (m_slots (v_data other)) 0 (v_size other) (m_slots m) 0 of
             Done u b \<Rightarrow> Done \<lparr>v_data = m\<lparr>m_slots := b\<rparr>, v_size = v_size other\<rparr> h'
           | Thrown b \<Rightarrow> Thrown h'
           | Abort \<Rightarrow> Abort))"

text \<open>The move constructor: the new object, and the source it leaves.\<close>

definition Vector_move :: "'a Vector \<Rightarrow> 'a Vector \<times> 'a Vector" where
  "Vector_move other =
     (case exchange_RawMemory (v_data other) RawMemory_default of
        (m, m') \<Rightarrow> (\<lparr>v_data = m, v_size = v_size other\<rparr>, \<lparr>v_data = m', v_size = 0\<rparr>))"

text \<open>The destructor destroys the live elements; \<open>None\<close> when one of them is no object.\<close>

definition Vector_dtor :: "'a Vector \<Rightarrow> unit option" where
  "Vector_dtor v = (case destroy_n (m_slots (v_data v)) 0 (v_size v) of None \<Rightarrow> None | Some b \<Rightarrow> Some ())"

subsection \<open>Swap and assignment\<close>

definition Swap :: "nat \<Rightarrow> nat \<Rightarrow> 'a machine \<Rightarrow> 'a machine" where
  "Swap this other s = s\<lparr>objs := (objs s)(this := objs s other, other := objs s this)\<rparr>"

definition copy_assign :: "'a payload \<Rightarrow> nat \<Rightarrow> nat \<Rightarrow> 'a machine \<Rightarrow> (unit, 'a machine) result" where
  "copy_assign P this rhs s =
     (if this \<noteq> rhs then
        (let dst = objs s this; src = objs s rhs in
         if v_size src > m_capacity (v_data dst) then
           (case Vector_copy P src (heap s) of
              Done rhs_copy h' \<Rightarrow>
                (case Vector_dtor dst of
                   None \<Rightarrow> Abort
                 | Some u \<Rightarrow> Done () (s\<lparr>objs := (objs s)(this := rhs_copy), heap := h'\<rparr>))
            | Thrown h' \<Rightarrow> Thrown (s\<lparr>heap := h'\<rparr>)
            | Abort \<Rightarrow> Abort)
         else if v_size src < v_size dst then
           (case copy_n P (m_slots (v_data src)) 0 (v_size src) (m_slots (v_data dst)) 0 of
              Done u b \<Rightarrow>
                (case destroy_n b (v_size src) (v_size dst - v_size src) of
                   None \<Rightarrow> Abort
                 | Some b' \<Rightarrow> Done () (set_size this (v_size src) (set_slots this b' s)))
            | Thrown b \<Rightarrow> Thrown (set_slots this b s)
            | Abort \<Rightarrow> Abort)
         else
           (case copy_n P (m_slots (v_data src)) 0 (v_size dst) (m_slots (v_data dst)) 0 of
              Done u b \<Rightarrow>
                (case uninitialized_copy_n P (m_slots (v_data src)) (v_size dst)
                        (v_size src - v_size dst) b (v_size dst) of
                   Done u b' \<Rightarrow> Done () (set_size this (v_size src) (set_slots this b' s))
                 | Thrown b' \<Rightarrow> Thrown (set_slots this b' s)
                 | Abort \<Rightarrow> Abort)
            | Thrown b \<Rightarrow> Thrown (set_slots this b s)
            | Abort \<Rightarrow> Abort))
      else Done () s)"

definition move_assign :: "nat \<Rightarrow> nat \<Rightarrow> 'a machine \<Rightarrow> (unit, 'a machine) result" where
  "move_assign this rhs s = (if this \<noteq> rhs then Done () (Swap this rhs s) else Done () s)"

subsection \<open>Reserve, Resize, PopBack\<close>

definition relocates :: "'a payload \<Rightarrow> bool" where
  "relocates P = (nothrow_move_constructible P \<or> \<not> copy_constructible P)"

definition Reserve :: "'a payload \<Rightarrow> nat \<Rightarrow> nat \<Rightarrow> 'a machine \<Rightarrow> (unit, 'a machine) result" where
  "Reserve P this new_capacity s =
     (let v = objs s this in
      if new_capacity \<le> m_capacity (v_data v) then Done () s
      else
        (case RawMemory_sized new_capacity (heap s) of
           (new_data, h') \<Rightarrow>
             (if relocates P then
                (case uninitialized_move_n P (m_slots (v_data v)) 0 (v_size v) (m_slots new_data) 0 of
                   Done u (old, new) \<Rightarrow>
                     (case destroy_n old 0 (v_size v) of
                        None \<Rightarrow> Abort
                      | Some old' \<Rightarrow>
                          Done () (s\<lparr>objs := (objs s)(this := v\<lparr>v_data := new_data\<lparr>m_slots := new\<rparr>\<rparr>),
                                     heap := h'\<rparr>))
                 | Thrown (old, new) \<Rightarrow> Thrown (set_slots this old (s\<lparr>heap := h'\<rparr>))
                 | Abort \<Rightarrow> Abort)
              else
                (case uninitialized_copy_n P (m_slots (v_data v)) 0 (v_size v) (m_slots new_data) 0 of
                   Done u new \<Rightarrow>
                     (case destroy_n (m_slots (v_data v)) 0 (v_size v) of
                        None \<Rightarrow> Abort
                      | Some old' \<Rightarrow>
                          Done () (s\<lparr>objs := (objs s)(this := v\<lparr>v_data := new_data\<lparr>m_slots := new\<rparr>\<rparr>),
                                     heap := h'\<rparr>))
                 | Thrown new \<Rightarrow> Thrown (s\<lparr>heap := h'\<rparr>)
                 | Abort \<Rightarrow> Abort))))"

definition Resize :: "'a payload \<Rightarrow> nat \<Rightarrow> nat \<Rightarrow> 'a machine \<Rightarrow> (unit, 'a machine) result" where
  "Resize P this new_size s =
     (if new_size < Size this s then
        (case destroy_n (slots_of this s) new_size (Size this s - new_size) of
           None \<Rightarrow> Abort
         | Some b \<Rightarrow> Done () (set_size this new_size (set_slots this b s)))
      else if new_size > Size this s then
        (case Reserve P this new_size s of
           Done u s1 \<Rightarrow>
             (case uninitialized_value_construct_n P (slots_of this s1) (Size this s1)
                     (new_size - Size this s1) of
                Done u b \<Rightarrow> Done () (set_size this new_size (set_slots this b s1))
              | Thrown b \<Rightarrow> Thrown (set_slots this b s1)
              | Abort \<Rightarrow> Abort)
         | Thrown s1 \<Rightarrow> Thrown s1
         | Abort \<Rightarrow> Abort)
      else Done () s)"



subsection \<open>Emplace, Insert, PushBack\<close>

text \<open>
  The arguments of \<^verbatim>\<open>Emplace\<close> are modelled for the two overloads of \<^verbatim>\<open>Insert\<close> and
  \<^verbatim>\<open>PushBack\<close>: one \<^verbatim>\<open>const T&\<close> (the new element is copy-constructed) or one
  \<^verbatim>\<open>T&&\<close> (it is move-constructed, and the referent is left moved-from).  The referent
  is read at the moment the code constructs from it.
\<close>

definition deref :: "'a machine \<Rightarrow> 'a ref \<Rightarrow> 'a option" where
  "deref s r = (case r of Ext x \<Rightarrow> Some x | Elem a i \<Rightarrow> slot_read (slots_of a s) i)"

definition leave_moved :: "'a payload \<Rightarrow> 'a ref \<Rightarrow> 'a \<Rightarrow> 'a machine \<Rightarrow> 'a machine" where
  "leave_moved P r x s =
     (case r of
        Ext y \<Rightarrow> s
      | Elem a i \<Rightarrow> set_slots a ((slots_of a s)[i := Live (moved_from P x)]) s)"

definition construct_from :: "'a payload \<Rightarrow> 'a arg \<Rightarrow> 'a machine \<Rightarrow> ('a, 'a machine) result" where
  "construct_from P a s =
     (case a of
        CopyOf r \<Rightarrow>
          (case deref s r of
             None \<Rightarrow> Abort
           | Some x \<Rightarrow> if copy_ctor_throws P x then Thrown s else Done x s)
      | MoveOf r \<Rightarrow>
          (case deref s r of
             None \<Rightarrow> Abort
           | Some x \<Rightarrow> if move_ctor_throws P x then Thrown s else Done x (leave_moved P r x s)))"

text \<open>Room available, \<^verbatim>\<open>pos == cend()\<close>.\<close>

definition Emplace_end :: "'a payload \<Rightarrow> nat \<Rightarrow> 'a arg \<Rightarrow> 'a machine \<Rightarrow> (nat, 'a machine) result" where
  "Emplace_end P this a s =
     (case construct_from P a s of
        Done x s1 \<Rightarrow>
          Done (Size this s1)
            (set_size this (Size this s1 + 1)
               (set_slots this ((slots_of this s1)[Size this s1 := Live x]) s1))
      | Thrown s1 \<Rightarrow> Thrown s1
      | Abort \<Rightarrow> Abort)"

text \<open>Room available, \<^verbatim>\<open>pos\<close> before the end: temporary, extend, shift, assign.\<close>

definition Emplace_shift ::
  "'a payload \<Rightarrow> nat \<Rightarrow> nat \<Rightarrow> 'a arg \<Rightarrow> 'a machine \<Rightarrow> (nat, 'a machine) result" where
  "Emplace_shift P this index a s =
     (case construct_from P a s of
        Done tmp_copy s1 \<Rightarrow>
          (let n = Size this s1; b = slots_of this s1 in
           if n = 0 \<or> length b \<le> n then Abort
           else case slot_read b (n - 1) of
             None \<Rightarrow> Abort
           | Some l \<Rightarrow>
               if move_ctor_throws P l then Thrown s1
               else
                 (case move_backward P (b[n := Live l, n - 1 := Live (moved_from P l)])
                         index (n - 1 - index) n of
                    Done u b2 \<Rightarrow>
                      (case slot_read b2 index of
                         None \<Rightarrow> Abort
                       | Some y \<Rightarrow>
                           if move_assign_throws P tmp_copy then Thrown (set_slots this b2 s1)
                           else Done index
                                  (set_size this (n + 1)
                                     (set_slots this (b2[index := Live tmp_copy]) s1)))
                  | Thrown b2 \<Rightarrow> Thrown (set_slots this b2 s1)
                  | Abort \<Rightarrow> Abort))
      | Thrown s1 \<Rightarrow> Thrown s1
      | Abort \<Rightarrow> Abort)"

text \<open>No room: new block, new element first, then the old elements around it.\<close>

definition adopt :: "nat \<Rightarrow> 'a RawMemory \<Rightarrow> 'a slot list \<Rightarrow> nat \<Rightarrow> 'a machine \<Rightarrow> 'a machine" where
  "adopt this new_data b n s =
     s\<lparr>objs := (objs s)(this := \<lparr>v_data = new_data\<lparr>m_slots := b\<rparr>, v_size = n\<rparr>)\<rparr>"

definition Emplace_grow ::
  "'a payload \<Rightarrow> nat \<Rightarrow> nat \<Rightarrow> 'a arg \<Rightarrow> 'a machine \<Rightarrow> (nat, 'a machine) result" where
  "Emplace_grow P this index a s =
     (case RawMemory_sized (if Capacity this s = 0 then 1 else Capacity this s * 2) (heap s) of
        (new_data, h') \<Rightarrow>
          (if m_capacity new_data \<le> index then Abort
           else case construct_from P a (s\<lparr>heap := h'\<rparr>) of
             Done x s1 \<Rightarrow>
               (let n = Size this s1;
                    old = slots_of this s1;
                    new = (m_slots new_data)[index := Live x]
                in
                if relocates P then
                  (case uninitialized_move_n P old 0 index new 0 of
                     Done u (old1, new1) \<Rightarrow>
                       (case uninitialized_move_n P old1 index (n - index) new1 (index + 1) of
                          Done u (old2, new2) \<Rightarrow>
                            (case destroy_n old2 0 n of
                               None \<Rightarrow> Abort
                             | Some old3 \<Rightarrow> Done index (adopt this new_data new2 (n + 1) s1))
                        | Thrown (old2, new2) \<Rightarrow> Thrown (set_slots this old2 s1)
                        | Abort \<Rightarrow> Abort)
                   | Thrown (old1, new1) \<Rightarrow> Thrown (set_slots this old1 s1)
                   | Abort \<Rightarrow> Abort)
                else
                  (case uninitialized_copy_n P old 0 index new 0 of
                     Done u new1 \<Rightarrow>
                       (case uninitialized_copy_n P old index (n - index) new1 (index + 1) of
                          Done u new2 \<Rightarrow>
                            (case destroy_n old 0 n of
                               None \<Rightarrow> Abort
                             | Some old3 \<Rightarrow> Done index (adopt this new_data new2 (n + 1) s1))
                        | Thrown new2 \<Rightarrow> Thrown s1
                        | Abort \<Rightarrow> Abort)
                   | Thrown new1 \<Rightarrow> Thrown s1
                   | Abort \<Rightarrow> Abort))
           | Thrown s1 \<Rightarrow> Thrown s1
           | Abort \<Rightarrow> Abort))"

text \<open>\<^verbatim>\<open>pos\<close> is the offset \<^verbatim>\<open>pos - cbegin()\<close>; the result is the offset of the returned iterator.\<close>

definition Emplace :: "'a payload \<Rightarrow> nat \<Rightarrow> nat \<Rightarrow> 'a arg \<Rightarrow> 'a machine \<Rightarrow> (nat, 'a machine) result" where
  "Emplace P this pos a s =
     (if pos \<le> Size this s then
        (if Size this s < Capacity this s then
           (if pos = Size this s then Emplace_end P this a s
            else Emplace_shift P this pos a s)
         else Emplace_grow P this pos a s)
      else Abort)"

definition Insert :: "'a payload \<Rightarrow> nat \<Rightarrow> nat \<Rightarrow> 'a ref \<Rightarrow> 'a machine \<Rightarrow> (nat, 'a machine) result" where
  "Insert P this pos v s = Emplace P this pos (CopyOf v) s"

definition Insert_rvalue ::
  "'a payload \<Rightarrow> nat \<Rightarrow> nat \<Rightarrow> 'a ref \<Rightarrow> 'a machine \<Rightarrow> (nat, 'a machine) result" where
  "Insert_rvalue P this pos v s = Emplace P this pos (MoveOf v) s"

definition EmplaceBack :: "'a payload \<Rightarrow> nat \<Rightarrow> 'a arg \<Rightarrow> 'a machine \<Rightarrow> (nat, 'a machine) result" where
  "EmplaceBack P this a s = Emplace P this (Size this s) a s"

definition returning_void :: "('r, 's) result \<Rightarrow> (unit, 's) result" where
  "returning_void r = (case r of Done x s \<Rightarrow> Done () s | Thrown s \<Rightarrow> Thrown s | Abort \<Rightarrow> Abort)"

definition PushBack :: "'a payload \<Rightarrow> nat \<Rightarrow> 'a ref \<Rightarrow> 'a machine \<Rightarrow> (unit, 'a machine) result" where
  "PushBack P this v s = returning_void (EmplaceBack P this (CopyOf v) s)"

definition PushBack_rvalue :: "'a payload \<Rightarrow> nat \<Rightarrow> 'a ref \<Rightarrow> 'a machine \<Rightarrow> (unit, 'a machine) result" where
  "PushBack_rvalue P this v s = returning_void (EmplaceBack P this (MoveOf v) s)"

subsection \<open>Erase\<close>


section \<open>Abstraction and invariant\<close>

text \<open>The values of the live elements, in order, and the invariant of the data model.\<close>

fun the_values :: "'a slot list \<Rightarrow> 'a list" where
  "the_values [] = []"
| "the_values (Raw # b) = the_values b"
| "the_values (Live x # b) = x # the_values b"

definition elements :: "'a Vector \<Rightarrow> 'a list" where
  "elements v = the_values (take (v_size v) (m_slots (v_data v)))"

fun is_live :: "'a slot \<Rightarrow> bool" where
  "is_live Raw = False"
| "is_live (Live x) = True"

definition invariant :: "'a Vector \<Rightarrow> bool" where
  "invariant v =
     (v_size v \<le> m_capacity (v_data v) \<and>
      length (m_slots (v_data v)) = m_capacity (v_data v) \<and>
      list_all is_live (take (v_size v) (m_slots (v_data v))) \<and>
      list_all (\<lambda>c. \<not> is_live c) (drop (v_size v) (m_slots (v_data v))))"

section \<open>Auxiliary definitions\<close>

text \<open>
  Whether the transfer policy chosen for the payload moves or copies the given values
  without an exception, and the vector that holds the values \<open>xs\<close> in a block of
  capacity \<open>c\<close> at address \<open>p\<close>.
\<close>

definition transfer_quiet :: "'a payload \<Rightarrow> 'a list \<Rightarrow> bool" where
  "transfer_quiet P xs =
     (if relocates P then list_all (\<lambda>x. \<not> move_ctor_throws P x) xs
      else list_all (\<lambda>x. \<not> copy_ctor_throws P x) xs)"

definition grown :: "nat \<Rightarrow> nat \<Rightarrow> 'a list \<Rightarrow> 'a Vector" where
  "grown p c xs =
     \<lparr>v_data = \<lparr>m_buffer = p, m_capacity = c, m_slots = map Live xs @ replicate (c - length xs) Raw\<rparr>,
      v_size = length xs\<rparr>"

text \<open>
  Two payloads and a state for the concrete instances: \<^verbatim>\<open>int\<close>, and a copy-only
  type over \<^verbatim>\<open>int\<close> whose copy operations throw on the value \<open>13\<close> (its moves are
  copies).  \<open>machine_of v w\<close> has \<open>v\<close> at address \<open>0\<close> and \<open>w\<close> at address \<open>1\<close>.
\<close>

definition int_payload :: "int payload" where
  "int_payload =
     \<lparr>nothrow_move_constructible = True, copy_constructible = True,
      nothrow_move_assignable = True, value_init = Some 0,
      copy_ctor_throws = (\<lambda>x. False), move_ctor_throws = (\<lambda>x. False),
      copy_assign_throws = (\<lambda>x. False), move_assign_throws = (\<lambda>x. False),
      moved_from = (\<lambda>x. x)\<rparr>"


definition machine_of :: "'a Vector \<Rightarrow> 'a Vector \<Rightarrow> 'a machine" where
  "machine_of v w = \<lparr>objs = (\<lambda>a. if a = 0 then v else if a = 1 then w else Vector_default), heap = 2\<rparr>"

text \<open>
  The conditions under which the element operations of \<^verbatim>\<open>Emplace\<close> and \<^verbatim>\<open>Erase\<close>
  meet no exception (\<open>xs\<close> are the element values, \<open>x\<close> the new value), the state that an
  \<^verbatim>\<open>Emplace\<close> of \<open>x\<close> at \<open>pos\<close> leaves when it returns, and a payload none of whose
  operations throws.
\<close>

definition shift_quiet :: "'a payload \<Rightarrow> nat \<Rightarrow> 'a list \<Rightarrow> 'a \<Rightarrow> bool" where
  "shift_quiet P index xs x =
     (\<not> move_ctor_throws P (last xs) \<and>
      list_all (\<lambda>y. \<not> move_assign_throws P y) (drop index (butlast xs)) \<and>
      \<not> move_assign_throws P x)"

definition emplace_quiet :: "'a payload \<Rightarrow> nat \<Rightarrow> nat \<Rightarrow> 'a \<Rightarrow> 'a machine \<Rightarrow> bool" where
  "emplace_quiet P this pos x s1 =
     (if Size this s1 < Capacity this s1
      then pos = Size this s1 \<or> shift_quiet P pos (elements (objs s1 this)) x
      else transfer_quiet P (elements (objs s1 this)))"

definition emplaced :: "nat \<Rightarrow> nat \<Rightarrow> 'a \<Rightarrow> 'a machine \<Rightarrow> 'a machine" where
  "emplaced this pos x s1 =
     (let v = objs s1 this; xs = elements v; c = Capacity this s1 in
      if Size this s1 < c
      then s1\<lparr>objs := (objs s1)(this := grown (m_buffer (v_data v)) c (take pos xs @ x # drop pos xs))\<rparr>
      else s1\<lparr>objs := (objs s1)(this := grown (Suc (heap s1)) (if c = 0 then 1 else c * 2)
                                          (take pos xs @ x # drop pos xs)),
              heap := Suc (heap s1)\<rparr>)"

definition erase_quiet :: "'a payload \<Rightarrow> nat \<Rightarrow> 'a list \<Rightarrow> bool" where
  "erase_quiet P pos xs =
     (if relocates P then list_all (\<lambda>y. \<not> move_assign_throws P y) (drop (Suc pos) xs)
      else list_all (\<lambda>y. \<not> copy_assign_throws P y) (drop (Suc pos) xs))"

definition quiet_payload :: "'a payload \<Rightarrow> bool" where
  "quiet_payload P =
     (\<forall>x. \<not> copy_ctor_throws P x \<and> \<not> move_ctor_throws P x \<and>
          \<not> copy_assign_throws P x \<and> \<not> move_assign_throws P x)"

text \<open>
  The capacities after each of a sequence of \<^verbatim>\<open>PushBack\<close> calls (\<open>None\<close> when one of
  them does not return), and the state in which every vector object is empty.
\<close>

fun push_capacities :: "'a payload \<Rightarrow> nat \<Rightarrow> 'a list \<Rightarrow> 'a machine \<Rightarrow> nat list option" where
  "push_capacities P this [] s = Some []"
| "push_capacities P this (x # xs) s =
     (case PushBack P this (Ext x) s of
        Done u s' \<Rightarrow>
          (case push_capacities P this xs s' of
             None \<Rightarrow> None
           | Some cs \<Rightarrow> Some (Capacity this s' # cs))
      | Thrown s' \<Rightarrow> None
      | Abort \<Rightarrow> None)"

definition empty_machine :: "'a machine" where
  "empty_machine = \<lparr>objs = (\<lambda>a. Vector_default), heap = 0\<rparr>"


text \<open>
  A copy-only payload over \<^verbatim>\<open>int\<close> whose copy assignment throws on the value \<open>13\<close> and
  whose copy constructor never throws, and a sequence of \<^verbatim>\<open>PushBack\<close> calls.
\<close>

definition assign_throwing_payload :: "int payload" where
  "assign_throwing_payload =
     \<lparr>nothrow_move_constructible = False, copy_constructible = True,
      nothrow_move_assignable = False, value_init = Some 0,
      copy_ctor_throws = (\<lambda>x. False), move_ctor_throws = (\<lambda>x. False),
      copy_assign_throws = (\<lambda>x. x = 13), move_assign_throws = (\<lambda>x. x = 13),
      moved_from = (\<lambda>x. x)\<rparr>"

fun push_all :: "'a payload \<Rightarrow> nat \<Rightarrow> 'a list \<Rightarrow> 'a machine \<Rightarrow> (unit, 'a machine) result" where
  "push_all P this [] s = Done () s"
| "push_all P this (x # xs) s =
     (case PushBack P this (Ext x) s of
        Done u s' \<Rightarrow> push_all P this xs s'
      | Thrown s' \<Rightarrow> Thrown s'
      | Abort \<Rightarrow> Abort)"

section \<open>Properties of the algorithms\<close>

lemma slot_read_mid [simp]: "slot_read (pre @ Live x # post) (length pre) = Some x"
  by (simp add: slot_read_def)

lemma slot_read_mid_Raw [simp]: "slot_read (pre @ Raw # post) (length pre) = None"
  by (simp add: slot_read_def)

lemma uninitialized_move_n_done:
  "\<forall>x\<in>set xs. \<not> move_ctor_throws P x \<Longrightarrow>
   uninitialized_move_n P (pre @ map Live xs @ post) (length pre) (length xs)
       (dpre @ replicate (length xs) Raw @ dpost) (length dpre)
     = Done () (pre @ map Live (map (moved_from P) xs) @ post, dpre @ map Live xs @ dpost)"
proof (induction xs arbitrary: pre dpre)
  case Nil
  show ?case by simp
next
  case (Cons x xs)
  have "uninitialized_move_n P ((pre @ [Live (moved_from P x)]) @ map Live xs @ post)
          (length (pre @ [Live (moved_from P x)])) (length xs)
          ((dpre @ [Live x]) @ replicate (length xs) Raw @ dpost) (length (dpre @ [Live x]))
     = Done () ((pre @ [Live (moved_from P x)]) @ map Live (map (moved_from P) xs) @ post,
                (dpre @ [Live x]) @ map Live xs @ dpost)"
    using Cons.prems by (intro Cons.IH) simp
  then show ?case using Cons.prems by (simp add: list_update_append)
qed

lemma uninitialized_move_n_thrown:
  "\<exists>x\<in>set xs. move_ctor_throws P x \<Longrightarrow>
   \<exists>zs. length zs = length xs \<and>
     uninitialized_move_n P (pre @ map Live xs @ post) (length pre) (length xs)
       (dpre @ replicate (length xs) Raw @ dpost) (length dpre)
     = Thrown (pre @ map Live zs @ post, dpre @ replicate (length xs) Raw @ dpost)"
proof (induction xs arbitrary: pre dpre)
  case Nil
  then show ?case by simp
next
  case (Cons x xs)
  show ?case
  proof (cases "move_ctor_throws P x")
    case True
    then have "uninitialized_move_n P (pre @ map Live (x # xs) @ post) (length pre) (length (x # xs))
       (dpre @ replicate (length (x # xs)) Raw @ dpost) (length dpre)
     = Thrown (pre @ map Live (x # xs) @ post, dpre @ replicate (length (x # xs)) Raw @ dpost)"
      by simp
    then show ?thesis by blast
  next
    case False
    with Cons.prems have "\<exists>x\<in>set xs. move_ctor_throws P x" by auto
    from Cons.IH [OF this, of "pre @ [Live (moved_from P x)]" "dpre @ [Live x]"]
    obtain zs where zs: "length zs = length xs"
      "uninitialized_move_n P ((pre @ [Live (moved_from P x)]) @ map Live xs @ post)
          (length (pre @ [Live (moved_from P x)])) (length xs)
          ((dpre @ [Live x]) @ replicate (length xs) Raw @ dpost) (length (dpre @ [Live x]))
        = Thrown ((pre @ [Live (moved_from P x)]) @ map Live zs @ post,
                  (dpre @ [Live x]) @ replicate (length xs) Raw @ dpost)"
      by blast
    have "uninitialized_move_n P (pre @ map Live (x # xs) @ post) (length pre) (length (x # xs))
       (dpre @ replicate (length (x # xs)) Raw @ dpost) (length dpre)
     = Thrown (pre @ map Live (moved_from P x # zs) @ post, dpre @ replicate (length (x # xs)) Raw @ dpost)"
      using zs(2) False by (simp add: list_update_append)
    moreover have "length (moved_from P x # zs) = length (x # xs)" using zs(1) by simp
    ultimately show ?thesis by blast
  qed
qed







lemma move_backward_step:
  "move_backward P (pre @ map Live (ys @ [y]) @ Live z # post) (length pre) (Suc (length ys))
      (Suc (length pre + Suc (length ys)))
   = (if move_assign_throws P y then Thrown (pre @ map Live (ys @ [y]) @ Live z # post)
      else move_backward P (pre @ map Live ys @ Live (moved_from P y) # Live y # post) (length pre) (length ys)
             (Suc (length pre + length ys)))"
proof -
  have a: "pre @ map Live (ys @ [y]) @ Live z # post = (pre @ map Live ys) @ Live y # Live z # post"
    by simp
  have b: "pre @ map Live (ys @ [y]) @ Live z # post = (pre @ map Live ys @ [Live y]) @ Live z # post"
    by simp
  have r1: "slot_read (pre @ map Live (ys @ [y]) @ Live z # post) (length pre + length ys) = Some y"
    unfolding a using slot_read_mid [of "pre @ map Live ys" y "Live z # post"] by simp
  have r2: "slot_read (pre @ map Live (ys @ [y]) @ Live z # post) (Suc (length pre + length ys)) = Some z"
    unfolding b using slot_read_mid [of "pre @ map Live ys @ [Live y]" z post] by simp
  have u: "(pre @ map Live (ys @ [y]) @ Live z # post)
             [Suc (length pre + length ys) := Live y, length pre + length ys := Live (moved_from P y)]
           = pre @ map Live ys @ Live (moved_from P y) # Live y # post"
    by (simp add: list_update_append)
  show ?thesis using r1 r2 u by simp
qed

lemma move_backward_done:
  "\<forall>y\<in>set ys. \<not> move_assign_throws P y \<Longrightarrow>
   \<exists>w. move_backward P (pre @ map Live ys @ Live z # post) (length pre) (length ys)
          (Suc (length pre + length ys))
     = Done () (pre @ Live w # map Live ys @ post)"
proof (induction ys arbitrary: z post rule: rev_induct)
  case Nil
  show ?case by simp
next
  case (snoc y ys)
  from snoc.prems have q: "\<forall>y\<in>set ys. \<not> move_assign_throws P y" and ny: "\<not> move_assign_throws P y"
    by simp_all
  from snoc.IH [OF q, of "moved_from P y" "Live y # post"]
  obtain w where "move_backward P (pre @ map Live ys @ Live (moved_from P y) # Live y # post)
       (length pre) (length ys) (Suc (length pre + length ys))
     = Done () (pre @ Live w # map Live ys @ Live y # post)" by blast
  then have "move_backward P (pre @ map Live (ys @ [y]) @ Live z # post) (length pre) (length (ys @ [y]))
          (Suc (length pre + length (ys @ [y])))
     = Done () (pre @ Live w # map Live (ys @ [y]) @ post)"
    using move_backward_step [of P pre ys y z post] ny by simp
  then show ?case by blast
qed

lemma move_backward_thrown:
  "\<exists>y\<in>set ys. move_assign_throws P y \<Longrightarrow>
   \<exists>zs. length zs = Suc (length ys) \<and>
     move_backward P (pre @ map Live ys @ Live z # post) (length pre) (length ys)
          (Suc (length pre + length ys))
     = Thrown (pre @ map Live zs @ post)"
proof (induction ys arbitrary: z post rule: rev_induct)
  case Nil
  then show ?case by simp
next
  case (snoc y ys)
  show ?case
  proof (cases "move_assign_throws P y")
    case True
    then have "move_backward P (pre @ map Live (ys @ [y]) @ Live z # post) (length pre) (length (ys @ [y]))
          (Suc (length pre + length (ys @ [y])))
       = Thrown (pre @ map Live (ys @ [y, z]) @ post)"
      using move_backward_step [of P pre ys y z post] by simp
    then show ?thesis by (intro exI [of _ "ys @ [y, z]"]) simp
  next
    case False
    with snoc.prems have "\<exists>y\<in>set ys. move_assign_throws P y" by auto
    from snoc.IH [OF this, of "moved_from P y" "Live y # post"]
    obtain zs where zs: "length zs = Suc (length ys)"
      "move_backward P (pre @ map Live ys @ Live (moved_from P y) # Live y # post)
         (length pre) (length ys) (Suc (length pre + length ys))
       = Thrown (pre @ map Live zs @ Live y # post)" by blast
    have "move_backward P (pre @ map Live (ys @ [y]) @ Live z # post) (length pre) (length (ys @ [y]))
          (Suc (length pre + length (ys @ [y])))
       = Thrown (pre @ map Live (zs @ [y]) @ post)"
      using move_backward_step [of P pre ys y z post] False zs(2) by simp
    then show ?thesis using zs(1) by (intro exI [of _ "zs @ [y]"]) simp
  qed
qed

lemma uninitialized_value_construct_n_done:
  "value_init P = Some x \<Longrightarrow>
   uninitialized_value_construct_n P (pre @ replicate n Raw @ post) (length pre) n
     = Done () (pre @ replicate n (Live x) @ post)"
proof (induction n arbitrary: pre)
  case 0
  show ?case by simp
next
  case (Suc n)
  have "uninitialized_value_construct_n P ((pre @ [Live x]) @ replicate n Raw @ post) (length (pre @ [Live x])) n
     = Done () ((pre @ [Live x]) @ replicate n (Live x) @ post)"
    using Suc.prems by (rule Suc.IH)
  then show ?case using Suc.prems by (simp add: list_update_append replicate_app_Cons_same)
qed

lemma uninitialized_value_construct_n_thrown:
  "value_init P = None \<Longrightarrow> 0 < n \<Longrightarrow>
   uninitialized_value_construct_n P (pre @ replicate n Raw @ post) (length pre) n
     = Thrown (pre @ replicate n Raw @ post)"
  by (cases n) simp_all

lemma destroy_n_block:
  "destroy_n (pre @ map Live xs @ post) (length pre) (length xs)
     = Some (pre @ replicate (length xs) Raw @ post)"
proof (induction xs arbitrary: pre)
  case Nil
  show ?case by simp
next
  case (Cons x xs)
  have "destroy_n ((pre @ [Raw]) @ map Live xs @ post) (length (pre @ [Raw])) (length xs)
          = Some ((pre @ [Raw]) @ replicate (length xs) Raw @ post)"
    by (rule Cons.IH)
  then show ?case by (simp add: destroy_at_def)
qed

lemma uninitialized_copy_n_block:
  "uninitialized_copy_n P (pre @ map Live xs @ post) (length pre) (length xs)
       (dpre @ replicate (length xs) Raw @ dpost) (length dpre)
     = (if \<exists>x\<in>set xs. copy_ctor_throws P x
        then Thrown (dpre @ replicate (length xs) Raw @ dpost)
        else Done () (dpre @ map Live xs @ dpost))"
proof (induction xs arbitrary: pre dpre)
  case Nil
  show ?case by simp
next
  case (Cons x xs)
  have IH: "uninitialized_copy_n P ((pre @ [Live x]) @ map Live xs @ post) (length (pre @ [Live x])) (length xs)
       ((dpre @ [Live x]) @ replicate (length xs) Raw @ dpost) (length (dpre @ [Live x]))
     = (if \<exists>x\<in>set xs. copy_ctor_throws P x
        then Thrown ((dpre @ [Live x]) @ replicate (length xs) Raw @ dpost)
        else Done () ((dpre @ [Live x]) @ map Live xs @ dpost))"
    by (rule Cons.IH)
  show ?case using IH by (simp add: list_update_append)
qed

section \<open>The invariant as a shape of the block\<close>

lemma the_values_map_Live [simp]: "the_values (map Live xs) = xs"
  by (induction xs) simp_all

lemma all_live_conv: "list_all is_live b \<Longrightarrow> b = map Live (the_values b)"
proof (induction b)
  case Nil
  show ?case by simp
next
  case (Cons c b)
  then show ?case by (cases c) simp_all
qed

lemma all_raw_conv: "list_all (\<lambda>c. \<not> is_live c) b \<Longrightarrow> b = replicate (length b) Raw"
proof (induction b)
  case Nil
  show ?case by simp
next
  case (Cons c b)
  then show ?case by (cases c) simp_all
qed

lemma invariant_rep:
  assumes "invariant v"
  shows "m_slots (v_data v) = map Live (elements v) @ replicate (m_capacity (v_data v) - v_size v) Raw"
    and "length (elements v) = v_size v"
proof -
  let ?b = "m_slots (v_data v)"
  from assms have le: "v_size v \<le> m_capacity (v_data v)" and len: "length ?b = m_capacity (v_data v)"
    and lv: "list_all is_live (take (v_size v) ?b)"
    and rw: "list_all (\<lambda>c. \<not> is_live c) (drop (v_size v) ?b)"
    by (simp_all add: invariant_def)
  have t: "take (v_size v) ?b = map Live (elements v)"
    using all_live_conv [OF lv] by (simp add: elements_def)
  have d: "drop (v_size v) ?b = replicate (m_capacity (v_data v) - v_size v) Raw"
    using all_raw_conv [OF rw] len by simp
  have "?b = take (v_size v) ?b @ drop (v_size v) ?b" by simp
  then show "?b = map Live (elements v) @ replicate (m_capacity (v_data v) - v_size v) Raw"
    using t d by simp
  have "length (take (v_size v) ?b) = v_size v" using le len by simp
  then show "length (elements v) = v_size v" using t by (metis length_map)
qed

lemma invariant_intro:
  assumes "m_slots (v_data v) = map Live xs @ replicate k Raw"
    and "v_size v = length xs" and "m_capacity (v_data v) = length xs + k"
  shows "invariant v" and "elements v = xs"
  using assms by (simp_all add: invariant_def elements_def list_all_iff)


lemma grown_invariant: "length xs \<le> c \<Longrightarrow> invariant (grown p c xs) \<and> elements (grown p c xs) = xs"
  using invariant_intro [of "grown p c xs" xs "c - length xs"] by (simp add: grown_def)

section \<open>Reserve and Resize\<close>










text \<open>
  C9.  \<^verbatim>\<open>Resize(n)\<close> with \<open>n\<close> the current size takes neither branch: it returns with
  the whole state as it was, so no block is allocated and no slot is constructed or
  destroyed.
\<close>

theorem Resize_to_current_size:
  "Resize P this (Size this s) s = Done () s"
  by (simp add: Resize_def)

section \<open>Emplace and Erase\<close>

lemma invariant_shape:
  assumes "invariant (objs s this)"
  shows "objs s this = grown (m_buffer (v_data (objs s this))) (Capacity this s) (elements (objs s this))"
    and "length (elements (objs s this)) = Size this s"
    and "Size this s \<le> Capacity this s"
proof -
  let ?v = "objs s this"
  have b: "m_slots (v_data ?v) = map Live (elements ?v) @ replicate (m_capacity (v_data ?v) - v_size ?v) Raw"
    and l: "length (elements ?v) = v_size ?v"
    using invariant_rep [OF assms] by simp_all
  show "length (elements ?v) = Size this s" using l by (simp add: Size_def)
  show "Size this s \<le> Capacity this s" using assms by (simp add: invariant_def Size_def Capacity_def)
  have "v_data ?v = \<lparr>m_buffer = m_buffer (v_data ?v), m_capacity = m_capacity (v_data ?v),
          m_slots = map Live (elements ?v) @ replicate (m_capacity (v_data ?v) - v_size ?v) Raw\<rparr>"
    using b by (cases "v_data ?v") simp
  then show "?v = grown (m_buffer (v_data ?v)) (Capacity this s) (elements ?v)"
    using l by (cases ?v) (simp add: grown_def Capacity_def)
qed

lemma Emplace_end_grown:
  assumes cf: "construct_from P a s = Done x s1"
    and v: "objs s1 this = grown p c xs" and room: "length xs < c"
  shows "Emplace_end P this a s = Done (length xs) (s1\<lparr>objs := (objs s1)(this := grown p c (xs @ [x]))\<rparr>)"
proof -
  obtain k where k: "c - length xs = Suc k" using room by (cases "c - length xs") simp_all
  have "(map Live xs @ replicate (c - length xs) Raw)[length xs := Live x]
          = map Live (xs @ [x]) @ replicate (c - length (xs @ [x])) Raw"
    using k by (simp add: list_update_append)
  then show ?thesis using cf v
    by (simp add: Emplace_end_def Size_def slots_of_def set_size_def set_slots_def grown_def)
qed

lemma split_at_index:
  assumes "index < length xs"
  shows "xs = take index xs @ drop index (butlast xs) @ [last xs]"
    and "length (drop index (butlast xs)) = length xs - 1 - index"
    and "take index xs @ x # drop index (butlast xs) @ [last xs] = take index xs @ x # drop index xs"
proof -
  from assms have ne: "xs \<noteq> []" by auto
  have d: "drop index xs = drop index (butlast xs) @ [last xs]"
    using assms ne by (metis append_butlast_last_id drop_append length_butlast
        Suc_diff_1 diff_is_0_eq drop_0 length_greater_0_conv less_Suc_eq_le drop_eq_Nil2 One_nat_def)
  show "xs = take index xs @ drop index (butlast xs) @ [last xs]"
    using d by (metis append_take_drop_id)
  show "length (drop index (butlast xs)) = length xs - 1 - index" by simp
  show "take index xs @ x # drop index (butlast xs) @ [last xs] = take index xs @ x # drop index xs"
    using d by simp
qed

lemma Emplace_shift_outcome_parts:
  assumes cf: "construct_from P a s = Done x s1"
    and v: "objs s1 this = grown p c (A @ B @ [l])" and room: "length (A @ B @ [l]) < c"
  shows "(\<not> move_ctor_throws P l \<and> (\<forall>y\<in>set B. \<not> move_assign_throws P y) \<and> \<not> move_assign_throws P x \<and>
          Emplace_shift P this (length A) a s
            = Done (length A) (s1\<lparr>objs := (objs s1)(this := grown p c (A @ x # B @ [l]))\<rparr>))
       \<or> (move_ctor_throws P l \<and> Emplace_shift P this (length A) a s = Thrown s1)
       \<or> (\<not> move_ctor_throws P l \<and>
           ((\<exists>y\<in>set B. move_assign_throws P y) \<or> move_assign_throws P x) \<and>
           (\<exists>zs. length zs = length (A @ B @ [l]) + 1 \<and>
              Emplace_shift P this (length A) a s
                = Thrown (set_slots this
                    (map Live zs @ replicate (c - length (A @ B @ [l]) - 1) Raw) s1)))"
proof -
  let ?n = "length (A @ B @ [l])"
  obtain k where k: "c - ?n = Suc k" using room by (cases "c - ?n") simp_all
  have k2: "c - Suc (Suc (length A + length B)) = k" using k by simp
  let ?post = "replicate k (Raw :: 'a slot)"
  have sz: "Size this s1 = Suc (length A + length B)"
    and sl: "slots_of this s1 = map Live A @ map Live B @ Live l # Raw # ?post"
    using v k by (simp_all add: Size_def slots_of_def grown_def)
  have rl: "slot_read (slots_of this s1) (length A + length B) = Some l"
    using slot_read_mid [of "map Live A @ map Live B" l "Raw # ?post"] sl by simp
  have u1: "(map Live A @ map Live B @ Live l # Raw # ?post)[Suc (length A + length B) := Live l]
          = map Live A @ map Live B @ Live l # Live l # ?post"
    using list_update_length [of "map Live A @ map Live B @ [Live l]" Raw ?post "Live l"] by simp
  have u2: "(map Live A @ map Live B @ Live l # Live l # ?post)[length A + length B := Live (moved_from P l)]
          = map Live A @ map Live B @ Live (moved_from P l) # Live l # ?post"
    using list_update_length [of "map Live A @ map Live B" "Live l" "Live l # ?post" "Live (moved_from P l)"]
    by simp
  have head: "Emplace_shift P this (length A) a s
      = (if move_ctor_throws P l then Thrown s1
         else (case move_backward P (map Live A @ map Live B @ Live (moved_from P l) # Live l # ?post)
                      (length A) (length B) (Suc (length A + length B)) of
                 Done u b2 \<Rightarrow>
                   (case slot_read b2 (length A) of
                      None \<Rightarrow> Abort
                    | Some y \<Rightarrow>
                        if move_assign_throws P x then Thrown (set_slots this b2 s1)
                        else Done (length A)
                               (set_size this (Size this s1 + 1)
                                  (set_slots this (b2[length A := Live x]) s1)))
               | Thrown b2 \<Rightarrow> Thrown (set_slots this b2 s1)
               | Abort \<Rightarrow> Abort))"
    using cf sz rl by (simp add: Emplace_shift_def Let_def sl u1 u2)
  show ?thesis
  proof (cases "move_ctor_throws P l")
    case True
    then show ?thesis using head by simp
  next
    case nl: False
    show ?thesis
    proof (cases "\<forall>y\<in>set B. \<not> move_assign_throws P y")
      case False
      then have "\<exists>y\<in>set B. move_assign_throws P y" by simp
      from move_backward_thrown [OF this, of "map Live A" "moved_from P l" "Live l # ?post"]
      obtain zs where zs: "length zs = Suc (length B)"
        "move_backward P (map Live A @ map Live B @ Live (moved_from P l) # Live l # ?post)
          (length A) (length B) (Suc (length A + length B))
         = Thrown (map Live A @ map Live zs @ Live l # ?post)"
        by auto
      have "Emplace_shift P this (length A) a s
           = Thrown (set_slots this (map Live (A @ zs @ [l]) @ replicate (c - ?n - 1) Raw) s1)"
        using head nl zs(2) k by simp
      moreover have "length (A @ zs @ [l]) = ?n + 1" using zs(1) by simp
      ultimately show ?thesis using nl False by blast
    next
      case True
      from move_backward_done [OF this, of "map Live A" "moved_from P l" "Live l # ?post"]
      obtain w where mb: "move_backward P (map Live A @ map Live B @ Live (moved_from P l) # Live l # ?post)
          (length A) (length B) (Suc (length A + length B))
         = Done () (map Live A @ Live w # map Live B @ Live l # ?post)"
        by auto
      have rd: "slot_read (map Live A @ Live w # map Live B @ Live l # ?post) (length A) = Some w"
        using slot_read_mid [of "map Live A" w "map Live B @ Live l # ?post"] by simp
      have fin: "(map Live A @ Live w # map Live B @ Live l # ?post)[length A := Live x]
                   = map Live A @ Live x # map Live B @ Live l # ?post"
        using list_update_length [of "map Live A" "Live w" "map Live B @ Live l # ?post" "Live x"] by simp
      show ?thesis
      proof (cases "move_assign_throws P x")
        case tx: True
        have "Emplace_shift P this (length A) a s
           = Thrown (set_slots this (map Live (A @ w # B @ [l]) @ replicate (c - ?n - 1) Raw) s1)"
          using head nl mb rd tx k by simp
        moreover have "length (A @ w # B @ [l]) = ?n + 1" by simp
        ultimately show ?thesis using nl tx by blast
      next
        case False
        have "Emplace_shift P this (length A) a s
           = Done (length A) (set_size this (Suc (length A + length B) + 1)
               (set_slots this (map Live A @ Live x # map Live B @ Live l # ?post) s1))"
          using head nl mb rd False fin sz by simp
        moreover have "set_size this (Suc (length A + length B) + 1)
               (set_slots this (map Live A @ Live x # map Live B @ Live l # ?post) s1)
           = s1\<lparr>objs := (objs s1)(this := grown p c (A @ x # B @ [l]))\<rparr>"
          using v k k2 by (simp add: set_size_def set_slots_def grown_def)
        ultimately show ?thesis using nl True False by simp
      qed
    qed
  qed
qed

lemma self_update_objs: "objs s1 this = v \<Longrightarrow> s1\<lparr>objs := (objs s1)(this := v)\<rparr> = s1"
  by (cases s1) auto

lemma Emplace_grow_outcome_parts:
  assumes cap: "Capacity this s = length (A @ B)"
    and cf: "construct_from P a (s\<lparr>heap := Suc (heap s)\<rparr>) = Done x s1"
    and v: "objs s1 this = grown p (length (A @ B)) (A @ B)"
    and c': "c' = (if length (A @ B) = 0 then 1 else length (A @ B) * 2)"
  shows "(transfer_quiet P (A @ B) \<and>
          Emplace_grow P this (length A) a s
            = Done (length A) (s1\<lparr>objs := (objs s1)(this := grown (Suc (heap s)) c' (A @ x # B))\<rparr>))
       \<or> (\<not> transfer_quiet P (A @ B) \<and>
           (\<exists>zs. length zs = length (A @ B) \<and>
              Emplace_grow P this (length A) a s
                = Thrown (s1\<lparr>objs := (objs s1)(this := grown p (length (A @ B)) zs)\<rparr>)))"
proof -
  let ?n = "length (A @ B)"
  have gt: "?n < c'" using c' by (cases "A = [] \<and> B = []") auto
  obtain k where k: "c' - ?n = Suc k" using gt by (cases "c' - ?n") simp_all
  have k2: "c' - Suc (length A + length B) = k" using k by simp
  have c'k: "c' = length A + (Suc (length B + k))" using k gt by simp
  let ?post = "replicate k (Raw :: 'a slot)"
  have new0: "replicate c' (Raw :: 'a slot) = replicate (length A) Raw @ Raw # replicate (length B) Raw @ ?post"
    unfolding c'k by (simp add: replicate_add replicate_app_Cons_same)
  have new: "(replicate c' (Raw :: 'a slot))[length A := Live x]
               = replicate (length A) Raw @ Live x # replicate (length B) Raw @ ?post"
    unfolding new0
    using list_update_length [of "replicate (length A) Raw" Raw "replicate (length B) Raw @ ?post" "Live x"]
    by simp
  have sz: "Size this s1 = length A + length B"
    and sl: "slots_of this s1 = map Live A @ map Live B"
    using v by (simp_all add: Size_def slots_of_def grown_def)
  have alloc: "RawMemory_sized (if Capacity this s = 0 then 1 else Capacity this s * 2) (heap s)
     = (\<lparr>m_buffer = Suc (heap s), m_capacity = c', m_slots = replicate c' Raw\<rparr>, Suc (heap s))"
    using cap c' by (simp add: RawMemory_sized_def Allocate_def)
  have inrange: "\<not> c' \<le> length A" using gt by simp
  have fin: "adopt this \<lparr>m_buffer = Suc (heap s), m_capacity = c', m_slots = replicate c' Raw\<rparr>
               (map Live A @ Live x # map Live B @ ?post) (length A + length B + 1) s1
           = s1\<lparr>objs := (objs s1)(this := grown (Suc (heap s)) c' (A @ x # B))\<rparr>"
    using k2 by (simp add: adopt_def grown_def)
  show ?thesis
  proof (cases "relocates P")
    case rel: True
    have head: "Emplace_grow P this (length A) a s
      = (case uninitialized_move_n P (map Live A @ map Live B) 0 (length A)
                (replicate (length A) Raw @ Live x # replicate (length B) Raw @ ?post) 0 of
           Done u (old1, new1) \<Rightarrow>
             (case uninitialized_move_n P old1 (length A) (Size this s1 - length A) new1 (length A + 1) of
                Done u (old2, new2) \<Rightarrow>
                  (case destroy_n old2 0 (Size this s1) of
                     None \<Rightarrow> Abort
                   | Some old3 \<Rightarrow>
                       Done (length A)
                         (adopt this \<lparr>m_buffer = Suc (heap s), m_capacity = c', m_slots = replicate c' Raw\<rparr>
                            new2 (Size this s1 + 1) s1))
              | Thrown (old2, new2) \<Rightarrow> Thrown (set_slots this old2 s1)
              | Abort \<Rightarrow> Abort)
         | Thrown (old1, new1) \<Rightarrow> Thrown (set_slots this old1 s1)
         | Abort \<Rightarrow> Abort)"
      unfolding Emplace_grow_def alloc
      using inrange cf rel by (simp add: Let_def sl new)
    note head = head [unfolded sz]
    have thr: "\<And>zs. length zs = length (A @ B) \<Longrightarrow>
        set_slots this (map Live zs) s1 = s1\<lparr>objs := (objs s1)(this := grown p (length (A @ B)) zs)\<rparr>"
      using v by (simp add: set_slots_def grown_def)
    show ?thesis
    proof (cases "\<forall>y\<in>set A. \<not> move_ctor_throws P y")
      case False
      then have "\<exists>y\<in>set A. move_ctor_throws P y" by simp
      from uninitialized_move_n_thrown [OF this, of "[]" "map Live B" "[]"
          "Live x # replicate (length B) Raw @ ?post"]
      obtain zs where zs: "length zs = length A"
        "uninitialized_move_n P (map Live A @ map Live B) 0 (length A)
                (replicate (length A) Raw @ Live x # replicate (length B) Raw @ ?post) 0
          = Thrown (map Live zs @ map Live B, replicate (length A) Raw @ Live x # replicate (length B) Raw @ ?post)"
        by auto
      have "Emplace_grow P this (length A) a s = Thrown (set_slots this (map Live (zs @ B)) s1)"
        using head zs(2) by simp
      with thr [of "zs @ B"] zs(1)
      have "Emplace_grow P this (length A) a s
              = Thrown (s1\<lparr>objs := (objs s1)(this := grown p (length (A @ B)) (zs @ B))\<rparr>)" by simp
      moreover have "length (zs @ B) = length (A @ B)" using zs(1) by simp
      moreover have "\<not> transfer_quiet P (A @ B)" using False rel
        by (auto simp: transfer_quiet_def list_all_iff)
      ultimately show ?thesis by blast
    next
      case qA: True
      from uninitialized_move_n_done [OF qA, of "[]" "map Live B" "[]"
          "Live x # replicate (length B) Raw @ ?post"]
      have m1: "uninitialized_move_n P (map Live A @ map Live B) 0 (length A)
                (replicate (length A) Raw @ Live x # replicate (length B) Raw @ ?post) 0
          = Done () (map Live (map (moved_from P) A) @ map Live B, map Live A @ Live x # replicate (length B) Raw @ ?post)"
        by simp
      show ?thesis
      proof (cases "\<forall>y\<in>set B. \<not> move_ctor_throws P y")
        case False
        then have "\<exists>y\<in>set B. move_ctor_throws P y" by simp
        from uninitialized_move_n_thrown [OF this, of "map Live (map (moved_from P) A)" "[]"
            "map Live A @ [Live x]" ?post]
        obtain zs where zs: "length zs = length B"
          "uninitialized_move_n P (map Live (map (moved_from P) A) @ map Live B) (length A) (length B)
                (map Live A @ Live x # replicate (length B) Raw @ ?post) (length A + 1)
            = Thrown (map Live (map (moved_from P) A) @ map Live zs,
                      map Live A @ Live x # replicate (length B) Raw @ ?post)"
          by auto
        have "Emplace_grow P this (length A) a s
                = Thrown (set_slots this (map Live (map (moved_from P) A @ zs)) s1)"
          using head m1 zs(2) by simp
        with thr [of "map (moved_from P) A @ zs"] zs(1)
        have "Emplace_grow P this (length A) a s
              = Thrown (s1\<lparr>objs := (objs s1)(this := grown p (length (A @ B)) (map (moved_from P) A @ zs))\<rparr>)"
          by simp
        moreover have "length (map (moved_from P) A @ zs) = length (A @ B)" using zs(1) by simp
        moreover have "\<not> transfer_quiet P (A @ B)" using False rel
          by (auto simp: transfer_quiet_def list_all_iff)
        ultimately show ?thesis by blast
      next
        case qB: True
        from uninitialized_move_n_done [OF qB, of "map Live (map (moved_from P) A)" "[]"
            "map Live A @ [Live x]" ?post]
        have m2: "uninitialized_move_n P (map Live (map (moved_from P) A) @ map Live B) (length A) (length B)
                (map Live A @ Live x # replicate (length B) Raw @ ?post) (length A + 1)
            = Done () (map Live (map (moved_from P) A) @ map Live (map (moved_from P) B),
                      map Live A @ Live x # map Live B @ ?post)"
          by simp
        have d: "destroy_n (map Live (map (moved_from P) A) @ map Live (map (moved_from P) B)) 0
                   (length A + length B) \<noteq> None"
          using destroy_n_block [of "[]" "map (moved_from P) (A @ B)" "[]"] by simp
        have "Emplace_grow P this (length A) a s
              = Done (length A) (s1\<lparr>objs := (objs s1)(this := grown (Suc (heap s)) c' (A @ x # B))\<rparr>)"
          using head m1 m2 d fin by auto
        moreover have "transfer_quiet P (A @ B)" using qA qB rel
          by (auto simp: transfer_quiet_def list_all_iff)
        ultimately show ?thesis by blast
      qed
    qed
  next
    case nrel: False
    have head: "Emplace_grow P this (length A) a s
      = (case uninitialized_copy_n P (map Live A @ map Live B) 0 (length A)
                (replicate (length A) Raw @ Live x # replicate (length B) Raw @ ?post) 0 of
           Done u new1 \<Rightarrow>
             (case uninitialized_copy_n P (slots_of this s1) (length A) (Size this s1 - length A) new1 (length A + 1) of
                Done u new2 \<Rightarrow>
                  (case destroy_n (slots_of this s1) 0 (Size this s1) of
                     None \<Rightarrow> Abort
                   | Some old3 \<Rightarrow>
                       Done (length A)
                         (adopt this \<lparr>m_buffer = Suc (heap s), m_capacity = c', m_slots = replicate c' Raw\<rparr>
                            new2 (Size this s1 + 1) s1))
              | Thrown new2 \<Rightarrow> Thrown s1
              | Abort \<Rightarrow> Abort)
         | Thrown new1 \<Rightarrow> Thrown s1
         | Abort \<Rightarrow> Abort)"
      unfolding Emplace_grow_def alloc
      using inrange cf nrel by (simp add: Let_def sl new)
    note head = head [unfolded sz sl]
    have c1: "uninitialized_copy_n P (map Live A @ map Live B) 0 (length A)
                (replicate (length A) Raw @ Live x # replicate (length B) Raw @ ?post) 0
          = (if \<exists>y\<in>set A. copy_ctor_throws P y
             then Thrown (replicate (length A) Raw @ Live x # replicate (length B) Raw @ ?post)
             else Done () (map Live A @ Live x # replicate (length B) Raw @ ?post))"
      using uninitialized_copy_n_block [of P "[]" A "map Live B" "[]"
          "Live x # replicate (length B) Raw @ ?post"] by simp
    have c2: "uninitialized_copy_n P (map Live A @ map Live B) (length A) (length B)
                (map Live A @ Live x # replicate (length B) Raw @ ?post) (length A + 1)
          = (if \<exists>y\<in>set B. copy_ctor_throws P y
             then Thrown (map Live A @ Live x # replicate (length B) Raw @ ?post)
             else Done () (map Live A @ Live x # map Live B @ ?post))"
      using uninitialized_copy_n_block [of P "map Live A" B "[]" "map Live A @ [Live x]" ?post] by simp
    have d: "destroy_n (map Live A @ map Live B) 0 (length A + length B) \<noteq> None"
      using destroy_n_block [of "[]" "A @ B" "[]"] by simp
    have same: "s1\<lparr>objs := (objs s1)(this := grown p (length (A @ B)) (A @ B))\<rparr> = s1"
      using v by (rule self_update_objs)
    show ?thesis
    proof (cases "transfer_quiet P (A @ B)")
      case True
      then have "\<not> (\<exists>y\<in>set A. copy_ctor_throws P y)" "\<not> (\<exists>y\<in>set B. copy_ctor_throws P y)"
        using nrel by (auto simp: transfer_quiet_def list_all_iff)
      then have "Emplace_grow P this (length A) a s
              = Done (length A) (s1\<lparr>objs := (objs s1)(this := grown (Suc (heap s)) c' (A @ x # B))\<rparr>)"
        using head c1 c2 d fin by auto
      then show ?thesis using True by blast
    next
      case False
      then have "(\<exists>y\<in>set A. copy_ctor_throws P y) \<or> (\<exists>y\<in>set B. copy_ctor_throws P y)"
        using nrel by (auto simp: transfer_quiet_def list_all_iff)
      then have "Emplace_grow P this (length A) a s = Thrown s1"
        using head c1 c2 by auto
      then have "Emplace_grow P this (length A) a s
                = Thrown (s1\<lparr>objs := (objs s1)(this := grown p (length (A @ B)) (A @ B))\<rparr>)"
        using same by simp
      then show ?thesis using False by blast
    qed
  qed
qed

lemma deref_heap [simp]: "deref (s\<lparr>heap := h\<rparr>) r = deref s r"
  by (cases r) (simp_all add: deref_def slots_of_def)

lemma leave_moved_heap: "leave_moved P r x (s\<lparr>heap := h\<rparr>) = (leave_moved P r x s)\<lparr>heap := h\<rparr>"
  by (cases r) (simp_all add: leave_moved_def slots_of_def set_slots_def)

lemma construct_from_heap:
  "construct_from P a (s\<lparr>heap := h\<rparr>)
     = (case construct_from P a s of
          Done x s1 \<Rightarrow> Done x (s1\<lparr>heap := h\<rparr>)
        | Thrown s1 \<Rightarrow> Thrown (s1\<lparr>heap := h\<rparr>)
        | Abort \<Rightarrow> Abort)"
  by (cases a) (simp_all add: construct_from_def leave_moved_heap split: option.splits)


lemma construct_from_CopyOf:
  "construct_from P (CopyOf r) s
     = (case deref s r of
          None \<Rightarrow> Abort
        | Some x \<Rightarrow> if copy_ctor_throws P x then Thrown s else Done x s)"
  by (simp add: construct_from_def)

lemma slot_read_Some: "slot_read b i = Some x \<longleftrightarrow> i < length b \<and> b ! i = Live x"
  by (auto simp: slot_read_def split: slot.splits)

lemma invariant_update_live:
  assumes inv: "invariant v" and rd: "slot_read (m_slots (v_data v)) i = Some x"
  shows "invariant (v\<lparr>v_data := (v_data v)\<lparr>m_slots := (m_slots (v_data v))[i := Live y]\<rparr>\<rparr>)"
proof -
  let ?b = "m_slots (v_data v)" and ?xs = "elements v" and ?k = "m_capacity (v_data v) - v_size v"
  have b: "?b = map Live ?xs @ replicate ?k Raw" and l: "length ?xs = v_size v"
    using invariant_rep [OF inv] by simp_all
  from inv have le: "v_size v \<le> m_capacity (v_data v)" by (simp add: invariant_def)
  from rd have i: "i < length ?b" and bi: "?b ! i = Live x" by (simp_all add: slot_read_Some)
  have isz: "i < length ?xs"
  proof (rule ccontr)
    assume "\<not> i < length ?xs"
    then have "(map Live ?xs @ replicate ?k Raw) ! i = Raw"
      using i b by (simp add: nth_append)
    with bi b show False by simp
  qed
  have "?b[i := Live y] = map Live (?xs[i := y]) @ replicate ?k Raw"
    using isz by (subst b) (simp add: list_update_append map_update)
  then show ?thesis
    using invariant_intro(1) [of "v\<lparr>v_data := (v_data v)\<lparr>m_slots := ?b[i := Live y]\<rparr>\<rparr>" "?xs[i := y]" ?k] l le
    by simp
qed

lemma construct_from_Done:
  assumes "construct_from P a s = Done x s1"
  shows "heap s1 = heap s"
    and "Size b s1 = Size b s" and "Capacity b s1 = Capacity b s"
    and "m_buffer (v_data (objs s1 b)) = m_buffer (v_data (objs s b))"
    and "invariant (objs s b) \<Longrightarrow> invariant (objs s1 b)"
proof -
  have "heap s1 = heap s \<and> Size b s1 = Size b s \<and> Capacity b s1 = Capacity b s \<and>
        m_buffer (v_data (objs s1 b)) = m_buffer (v_data (objs s b)) \<and>
        (invariant (objs s b) \<longrightarrow> invariant (objs s1 b))"
  proof (cases a)
    case (CopyOf r)
    with assms have "s1 = s" by (auto simp: construct_from_def split: option.splits if_splits)
    then show ?thesis by simp
  next
    case (MoveOf r)
    show ?thesis
    proof (cases r)
      case (Ext y)
      with MoveOf assms have "s1 = s"
        by (auto simp: construct_from_def leave_moved_def split: option.splits if_splits)
      then show ?thesis by simp
    next
      case (Elem c i)
      with MoveOf assms have rd: "slot_read (slots_of c s) i = Some x"
        and s1: "s1 = set_slots c ((slots_of c s)[i := Live (moved_from P x)]) s"
        by (auto simp: construct_from_def leave_moved_def deref_def split: option.splits if_splits)
      show ?thesis
      proof (cases "b = c")
        case True
        have "invariant (objs s c) \<longrightarrow> invariant (objs s1 c)"
          using invariant_update_live [of "objs s c" i x "moved_from P x"] rd
          by (simp add: s1 set_slots_def slots_of_def)
        then show ?thesis using True by (simp add: s1 set_slots_def Size_def Capacity_def slots_of_def)
      next
        case False
        then show ?thesis by (simp add: s1 set_slots_def Size_def Capacity_def)
      qed
    qed
  qed
  then show "heap s1 = heap s"
    and "Size b s1 = Size b s" and "Capacity b s1 = Capacity b s"
    and "m_buffer (v_data (objs s1 b)) = m_buffer (v_data (objs s b))"
    and "invariant (objs s b) \<Longrightarrow> invariant (objs s1 b)"
    by simp_all
qed

lemma Emplace_Done_constructs:
  assumes "Emplace P this pos a s = Done i s'"
  shows "\<exists>x s1. construct_from P a s = Done x s1"
proof (cases "construct_from P a s")
  case (Done x s1)
  then show ?thesis by blast
next
  case (Thrown s1)
  then have "construct_from P a (s\<lparr>heap := h\<rparr>) = Thrown (s1\<lparr>heap := h\<rparr>)" for h
    by (simp add: construct_from_heap)
  with Thrown assms show ?thesis
    by (auto simp: Emplace_def Emplace_end_def Emplace_shift_def Emplace_grow_def
        split: if_splits prod.splits)
next
  case Abort
  then have "construct_from P a (s\<lparr>heap := h\<rparr>) = Abort" for h
    by (simp add: construct_from_heap)
  with Abort assms show ?thesis
    by (auto simp: Emplace_def Emplace_end_def Emplace_shift_def Emplace_grow_def
        split: if_splits prod.splits)
qed

lemma Emplace_outcome:
  assumes inv: "invariant (objs s this)" and pos: "pos \<le> Size this s"
    and cf: "construct_from P a s = Done x s1"
  shows "(emplace_quiet P this pos x s1 \<and> Emplace P this pos a s = Done pos (emplaced this pos x s1))
       \<or> (\<not> emplace_quiet P this pos x s1 \<and> (\<exists>s'. Emplace P this pos a s = Thrown s'))"
proof -
  let ?xs = "elements (objs s1 this)" and ?p = "m_buffer (v_data (objs s1 this))"
  let ?c = "Capacity this s1"
  have inv1: "invariant (objs s1 this)" using construct_from_Done(5) [OF cf inv] .
  have sz: "Size this s1 = Size this s" and cp: "Capacity this s1 = Capacity this s"
    and hp: "heap s1 = heap s"
    using construct_from_Done(1,2,3) [OF cf] by simp_all
  have v: "objs s1 this = grown ?p ?c ?xs" and l: "length ?xs = Size this s1"
    and le: "Size this s1 \<le> ?c"
    using invariant_shape [OF inv1] by simp_all
  show ?thesis
  proof (cases "Size this s < Capacity this s")
    case room: True
    then have room1: "length ?xs < ?c" using l sz cp by simp
    show ?thesis
    proof (cases "pos = Size this s")
      case True
      have "Emplace P this pos a s = Done (length ?xs) (s1\<lparr>objs := (objs s1)(this := grown ?p ?c (?xs @ [x]))\<rparr>)"
        using Emplace_end_grown [OF cf v room1] room True pos by (simp add: Emplace_def)
      moreover have "emplaced this pos x s1 = s1\<lparr>objs := (objs s1)(this := grown ?p ?c (?xs @ [x]))\<rparr>"
        using True room l sz cp by (simp add: emplaced_def Let_def)
      moreover have "emplace_quiet P this pos x s1" using True room sz cp by (simp add: emplace_quiet_def)
      ultimately show ?thesis using True l sz by simp
    next
      case False
      with pos have i: "pos < length ?xs" using l sz by simp
      let ?A = "take pos ?xs" and ?B = "drop pos (butlast ?xs)" and ?l = "last ?xs"
      have split: "?xs = ?A @ ?B @ [?l]" and ins: "?A @ x # ?B @ [?l] = take pos ?xs @ x # drop pos ?xs"
        using split_at_index(1,3) [OF i] by simp_all
      have lA: "length ?A = pos" using i by simp
      have v': "objs s1 this = grown ?p ?c (?A @ ?B @ [?l])" using v split by simp
      have room': "length (?A @ ?B @ [?l]) < ?c" using room1 split by simp
      have E: "Emplace P this pos a s = Emplace_shift P this pos a s"
        using room False pos by (simp add: Emplace_def)
      have em: "emplaced this pos x s1
                  = s1\<lparr>objs := (objs s1)(this := grown ?p ?c (?A @ x # ?B @ [?l]))\<rparr>"
        using room sz cp ins by (simp add: emplaced_def Let_def)
      have q: "emplace_quiet P this pos x s1
                 \<longleftrightarrow> \<not> move_ctor_throws P ?l \<and> (\<forall>y\<in>set ?B. \<not> move_assign_throws P y) \<and> \<not> move_assign_throws P x"
        using room False sz cp by (simp add: emplace_quiet_def shift_quiet_def list_all_iff)
      from Emplace_shift_outcome_parts [OF cf v' room', unfolded lA]
      show ?thesis unfolding E em q by blast
    qed
  next
    case full: False
    then have eq: "length ?xs = Capacity this s" using l le sz cp by simp
    let ?A = "take pos ?xs" and ?B = "drop pos ?xs"
    let ?s1 = "s1\<lparr>heap := Suc (heap s)\<rparr>"
    have lA: "length ?A = pos" using pos l sz by simp
    have cap: "Capacity this s = length (?A @ ?B)" using eq by simp
    have cf': "construct_from P a (s\<lparr>heap := Suc (heap s)\<rparr>) = Done x ?s1"
      using cf by (simp add: construct_from_heap)
    have v': "objs ?s1 this = grown ?p (length (?A @ ?B)) (?A @ ?B)"
      using v eq cp by simp
    have E: "Emplace P this pos a s = Emplace_grow P this pos a s"
      using full pos by (simp add: Emplace_def)
    have em: "emplaced this pos x s1
         = ?s1\<lparr>objs := (objs ?s1)(this := grown (Suc (heap s))
                  (if length (?A @ ?B) = 0 then 1 else length (?A @ ?B) * 2) (?A @ x # ?B))\<rparr>"
      using full sz cp hp eq by (simp add: emplaced_def Let_def)
    have q: "emplace_quiet P this pos x s1 \<longleftrightarrow> transfer_quiet P (?A @ ?B)"
      using full sz cp by (simp add: emplace_quiet_def)
    from Emplace_grow_outcome_parts [OF cap cf' v' refl, unfolded lA]
    show ?thesis unfolding E em q by blast
  qed
qed

lemma emplaced_properties:
  assumes inv: "invariant (objs s1 this)" and pos: "pos \<le> Size this s1"
  shows "invariant (objs (emplaced this pos x s1) this)"
    and "elements (objs (emplaced this pos x s1) this)
           = take pos (elements (objs s1 this)) @ x # drop pos (elements (objs s1 this))"
    and "Size this (emplaced this pos x s1) = Size this s1 + 1"
    and "Capacity this (emplaced this pos x s1)
           = (if Size this s1 < Capacity this s1 then Capacity this s1
              else max 1 (Capacity this s1 * 2))"
    and "b \<noteq> this \<Longrightarrow> objs (emplaced this pos x s1) b = objs s1 b"
proof -
  let ?xs = "elements (objs s1 this)" and ?c = "Capacity this s1"
  let ?ys = "take pos ?xs @ x # drop pos ?xs"
  have l: "length ?xs = Size this s1" and le: "Size this s1 \<le> ?c"
    using invariant_shape [OF inv] by simp_all
  have ly: "length ?ys = Size this s1 + 1" using l pos by simp
  let ?c' = "if Size this s1 < ?c then ?c else (if ?c = 0 then 1 else ?c * 2)"
  let ?p' = "if Size this s1 < ?c then m_buffer (v_data (objs s1 this)) else Suc (heap s1)"
  have o: "objs (emplaced this pos x s1) this = grown ?p' ?c' ?ys"
    by (simp add: emplaced_def Let_def)
  have fit: "length ?ys \<le> ?c'" using ly le by auto
  from grown_invariant [OF fit, of ?p']
  show "invariant (objs (emplaced this pos x s1) this)"
    and "elements (objs (emplaced this pos x s1) this) = ?ys"
    unfolding o by simp_all
  show "Size this (emplaced this pos x s1) = Size this s1 + 1"
    unfolding Size_def o using ly by (simp add: grown_def Size_def)
  show "Capacity this (emplaced this pos x s1)
           = (if Size this s1 < ?c then ?c else max 1 (?c * 2))"
    unfolding Capacity_def [of this "emplaced this pos x s1"] o by (auto simp: grown_def)
  show "b \<noteq> this \<Longrightarrow> objs (emplaced this pos x s1) b = objs s1 b"
    by (simp add: emplaced_def Let_def)
qed


subsection \<open>Insert followed by Erase\<close>

lemma quiet_payload_quiet:
  assumes "quiet_payload P"
  shows "emplace_quiet P this pos x s" and "erase_quiet P pos xs" and "transfer_quiet P xs"
  using assms
  by (simp_all add: quiet_payload_def emplace_quiet_def erase_quiet_def transfer_quiet_def
      shift_quiet_def list_all_iff)


lemma Insert_quiet:
  assumes inv: "invariant (objs s this)" and pos: "pos \<le> Size this s"
    and dr: "deref s v = Some x" and nc: "\<not> copy_ctor_throws P x"
    and q: "emplace_quiet P this pos x s"
  shows "Insert P this pos v s = Done pos (emplaced this pos x s)"
proof -
  have cf: "construct_from P (CopyOf v) s = Done x s" using dr nc by (simp add: construct_from_CopyOf)
  from Emplace_outcome [OF inv pos cf] q show ?thesis by (auto simp: Insert_def)
qed






subsection \<open>Inserting an element of the vector itself\<close>





section \<open>Growth of the capacity\<close>

lemma Emplace_Done_state:
  assumes inv: "invariant (objs s this)" and d: "Emplace P this pos a s = Done i s'"
  shows "\<exists>x s1. construct_from P a s = Done x s1 \<and> pos \<le> Size this s \<and> i = pos \<and> s' = emplaced this pos x s1"
proof -
  from Emplace_Done_constructs [OF d]
  obtain x s1 where cf: "construct_from P a s = Done x s1" by blast
  have pos: "pos \<le> Size this s" using d by (auto simp: Emplace_def split: if_splits)
  from Emplace_outcome [OF inv pos cf] d
  have "i = pos \<and> s' = emplaced this pos x s1" by auto
  with cf pos show ?thesis by blast
qed

lemma Emplace_Done_size_capacity:
  assumes inv: "invariant (objs s this)" and d: "Emplace P this pos a s = Done i s'"
  shows "Size this s' = Size this s + 1"
    and "Capacity this s' = (if Size this s < Capacity this s then Capacity this s
                             else max 1 (Capacity this s * 2))"
    and "invariant (objs s' this)"
proof -
  from Emplace_Done_state [OF inv d]
  obtain x s1 where cf: "construct_from P a s = Done x s1" and pos: "pos \<le> Size this s"
    and s': "s' = emplaced this pos x s1" by blast
  have inv1: "invariant (objs s1 this)" using construct_from_Done(5) [OF cf inv] .
  have sz: "Size this s1 = Size this s" and cp: "Capacity this s1 = Capacity this s"
    using construct_from_Done(2,3) [OF cf] by simp_all
  have pos1: "pos \<le> Size this s1" using pos sz by simp
  show "Size this s' = Size this s + 1"
    using emplaced_properties(3) [OF inv1 pos1, of x] sz s' by simp
  show "Capacity this s' = (if Size this s < Capacity this s then Capacity this s
                             else max 1 (Capacity this s * 2))"
    using emplaced_properties(4) [OF inv1 pos1, of x] sz cp s' by simp
  show "invariant (objs s' this)"
    using emplaced_properties(1) [OF inv1 pos1, of x] s' by simp
qed

lemma returning_void_Done: "returning_void r = Done u s' \<Longrightarrow> \<exists>i. r = Done i s'"
  by (cases r) (simp_all add: returning_void_def)

lemma PushBack_Done_size_capacity:
  assumes inv: "invariant (objs s this)" and d: "PushBack P this v s = Done u s'"
  shows "Size this s' = Size this s + 1"
    and "Capacity this s' = (if Size this s < Capacity this s then Capacity this s
                             else max 1 (Capacity this s * 2))"
    and "invariant (objs s' this)"
proof -
  from d obtain i where e: "Emplace P this (Size this s) (CopyOf v) s = Done i s'"
    by (auto simp: PushBack_def EmplaceBack_def dest: returning_void_Done)
  show "Size this s' = Size this s + 1"
    and "Capacity this s' = (if Size this s < Capacity this s then Capacity this s
                             else max 1 (Capacity this s * 2))"
    and "invariant (objs s' this)"
    using Emplace_Done_size_capacity [OF inv e] by simp_all
qed

lemma push_capacities_step:
  assumes "push_capacities P this (x # xs) s = Some cs" and "invariant (objs s this)"
  obtains s' cs' where "cs = Capacity this s' # cs'" and "push_capacities P this xs s' = Some cs'"
    and "invariant (objs s' this)" and "Size this s' = Size this s + 1"
    and "Capacity this s' = (if Size this s < Capacity this s then Capacity this s
                             else max 1 (Capacity this s * 2))"
proof -
  from assms(1) obtain u s' cs' where p: "PushBack P this (Ext x) s = Done u s'"
    and r: "push_capacities P this xs s' = Some cs'" and cs: "cs = Capacity this s' # cs'"
    by (auto split: result.splits option.splits)
  from PushBack_Done_size_capacity [OF assms(2) p] r cs that show thesis by blast
qed

lemma five_pushes:
  assumes p: "push_capacities P this [v1, v2, v3, v4, v5] s = Some cs"
    and inv: "invariant (objs s this)" and z: "Size this s = 0" and c: "Capacity this s = 0"
  shows "cs = [1, 2, 4, 4, 8]"
proof -
  from push_capacities_step [OF p inv]
  obtain s1 cs1 where 1: "cs = Capacity this s1 # cs1" "push_capacities P this [v2, v3, v4, v5] s1 = Some cs1"
    "invariant (objs s1 this)" "Size this s1 = Size this s + 1"
    "Capacity this s1 = (if Size this s < Capacity this s then Capacity this s else max 1 (Capacity this s * 2))"
    by blast
  have s1: "Size this s1 = 1" "Capacity this s1 = 1" using 1(4,5) z c by simp_all
  from push_capacities_step [OF 1(2,3)]
  obtain s2 cs2 where 2: "cs1 = Capacity this s2 # cs2" "push_capacities P this [v3, v4, v5] s2 = Some cs2"
    "invariant (objs s2 this)" "Size this s2 = Size this s1 + 1"
    "Capacity this s2 = (if Size this s1 < Capacity this s1 then Capacity this s1 else max 1 (Capacity this s1 * 2))"
    by blast
  have s2: "Size this s2 = 2" "Capacity this s2 = 2" using 2(4,5) s1 by simp_all
  from push_capacities_step [OF 2(2,3)]
  obtain s3 cs3 where 3: "cs2 = Capacity this s3 # cs3" "push_capacities P this [v4, v5] s3 = Some cs3"
    "invariant (objs s3 this)" "Size this s3 = Size this s2 + 1"
    "Capacity this s3 = (if Size this s2 < Capacity this s2 then Capacity this s2 else max 1 (Capacity this s2 * 2))"
    by blast
  have s3: "Size this s3 = 3" "Capacity this s3 = 4" using 3(4,5) s2 by simp_all
  from push_capacities_step [OF 3(2,3)]
  obtain s4 cs4 where 4: "cs3 = Capacity this s4 # cs4" "push_capacities P this [v5] s4 = Some cs4"
    "invariant (objs s4 this)" "Size this s4 = Size this s3 + 1"
    "Capacity this s4 = (if Size this s3 < Capacity this s3 then Capacity this s3 else max 1 (Capacity this s3 * 2))"
    by blast
  have s4: "Size this s4 = 4" "Capacity this s4 = 4" using 4(4,5) s3 by simp_all
  from push_capacities_step [OF 4(2,3)]
  obtain s5 cs5 where 5: "cs4 = Capacity this s5 # cs5" "push_capacities P this [] s5 = Some cs5"
    "Capacity this s5 = (if Size this s4 < Capacity this s4 then Capacity this s4 else max 1 (Capacity this s4 * 2))"
    by blast
  have s5: "Capacity this s5 = 8" using 5(3) s4 by simp
  from 5(2) have "cs5 = []" by simp
  with 1(1) 2(1) 3(1) 4(1) 5(1) s1 s2 s3 s4 s5 show ?thesis by simp
qed


lemma PushBack_quiet:
  assumes inv: "invariant (objs s this)" and dr: "deref s v = Some x"
    and nc: "\<not> copy_ctor_throws P x" and q: "emplace_quiet P this (Size this s) x s"
  shows "PushBack P this v s = Done () (emplaced this (Size this s) x s)"
  using Insert_quiet [OF inv le_refl dr nc q]
  by (simp add: PushBack_def EmplaceBack_def Insert_def returning_void_def)

text \<open>
  C7.  For a vector that satisfies the invariant and has no free slot, every one of
  \<^verbatim>\<open>Emplace\<close>, \<^verbatim>\<open>Insert\<close>, \<^verbatim>\<open>EmplaceBack\<close> and \<^verbatim>\<open>PushBack\<close> that returns leaves
  the capacity \<open>max 1 (2 * old capacity)\<close>.  Five \<^verbatim>\<open>PushBack\<close> calls that return, starting
  from a vector of size and capacity \<open>0\<close>, leave the capacities \<open>1, 2, 4, 4, 8\<close>, and for
  \<^verbatim>\<open>int\<close> elements they do return.
\<close>

theorem growth_policy:
  "(invariant (objs s this) \<and> \<not> Size this s < Capacity this s \<longrightarrow>
      (\<forall>i s'. Emplace P this pos a s = Done i s' \<longrightarrow> Capacity this s' = max 1 (Capacity this s * 2)) \<and>
      (\<forall>i s'. Insert P this pos v s = Done i s' \<longrightarrow> Capacity this s' = max 1 (Capacity this s * 2)) \<and>
      (\<forall>i s'. Insert_rvalue P this pos v s = Done i s' \<longrightarrow> Capacity this s' = max 1 (Capacity this s * 2)) \<and>
      (\<forall>i s'. EmplaceBack P this a s = Done i s' \<longrightarrow> Capacity this s' = max 1 (Capacity this s * 2)) \<and>
      (\<forall>u s'. PushBack P this v s = Done u s' \<longrightarrow> Capacity this s' = max 1 (Capacity this s * 2)) \<and>
      (\<forall>u s'. PushBack_rvalue P this v s = Done u s' \<longrightarrow> Capacity this s' = max 1 (Capacity this s * 2))) \<and>
   (invariant (objs s this) \<and> Size this s = 0 \<and> Capacity this s = 0 \<and>
    push_capacities P this [v1, v2, v3, v4, v5] s = Some cs \<longrightarrow> cs = [1, 2, 4, 4, 8]) \<and>
   push_capacities int_payload 0 [1, 2, 3, 4, 5] empty_machine = Some [1, 2, 4, 4, 8]"
proof (intro conjI impI allI)
  fix i u s'
  assume a: "invariant (objs s this) \<and> \<not> Size this s < Capacity this s"
  then have inv: "invariant (objs s this)" and full: "\<not> Size this s < Capacity this s" by simp_all
  have E: "Emplace P this p b s = Done j t \<Longrightarrow> Capacity this t = max 1 (Capacity this s * 2)" for p b j t
    using Emplace_Done_size_capacity(2) [OF inv] full by simp
  show "Emplace P this pos a s = Done i s' \<Longrightarrow> Capacity this s' = max 1 (Capacity this s * 2)"
    by (rule E)
  show "Insert P this pos v s = Done i s' \<Longrightarrow> Capacity this s' = max 1 (Capacity this s * 2)"
    unfolding Insert_def by (rule E)
  show "Insert_rvalue P this pos v s = Done i s' \<Longrightarrow> Capacity this s' = max 1 (Capacity this s * 2)"
    unfolding Insert_rvalue_def by (rule E)
  show "EmplaceBack P this a s = Done i s' \<Longrightarrow> Capacity this s' = max 1 (Capacity this s * 2)"
    unfolding EmplaceBack_def by (rule E)
  show "PushBack P this v s = Done u s' \<Longrightarrow> Capacity this s' = max 1 (Capacity this s * 2)"
    unfolding PushBack_def EmplaceBack_def by (auto dest!: returning_void_Done E)
  show "PushBack_rvalue P this v s = Done u s' \<Longrightarrow> Capacity this s' = max 1 (Capacity this s * 2)"
    unfolding PushBack_rvalue_def EmplaceBack_def by (auto dest!: returning_void_Done E)
next
  assume "invariant (objs s this) \<and> Size this s = 0 \<and> Capacity this s = 0 \<and>
    push_capacities P this [v1, v2, v3, v4, v5] s = Some cs"
  then show "cs = [1, 2, 4, 4, 8]" using five_pushes [of P this v1 v2 v3 v4 v5 s cs] by simp
next
  show "push_capacities int_payload 0 [1, 2, 3, 4, 5] empty_machine = Some [1, 2, 4, 4, 8]"
    by code_simp
qed

theorem growth_policy_witness:
  "invariant (grown 1 2 [1, 2::int]) \<and>
   \<not> Size 0 (machine_of (grown 1 2 [1, 2::int]) Vector_default)
       < Capacity 0 (machine_of (grown 1 2 [1, 2::int]) Vector_default) \<and>
   (\<exists>s'. PushBack int_payload 0 (Ext 3) (machine_of (grown 1 2 [1, 2::int]) Vector_default) = Done () s' \<and>
      Capacity 0 s' = 4) \<and>
   invariant (objs (empty_machine :: int machine) 0) \<and>
   Size 0 (empty_machine :: int machine) = 0 \<and> Capacity 0 (empty_machine :: int machine) = 0 \<and>
   (\<exists>cs. push_capacities int_payload 0 [10, 20, 30, 40, 50] empty_machine = Some cs \<and>
      cs = [1, 2, 4, 4, 8])"
proof -
  let ?s = "machine_of (grown 1 2 [1, 2::int]) Vector_default"
  let ?e = "empty_machine :: int machine"
  have g: "invariant (grown 1 2 [1, 2::int])"
    using grown_invariant [of "[1, 2::int]" 2 1] by simp
  have o: "objs ?s 0 = grown 1 2 [1, 2]" and z: "Size 0 ?s = 2" and c: "Capacity 0 ?s = 2"
    by (simp_all add: machine_of_def Size_def Capacity_def grown_def)
  have inv: "invariant (objs ?s 0)" using g o by simp
  have full: "\<not> Size 0 ?s < Capacity 0 ?s" using z c by simp
  have qp: "quiet_payload int_payload" by (simp add: quiet_payload_def int_payload_def)
  have nc: "\<not> copy_ctor_throws int_payload 3" by (simp add: int_payload_def)
  have "PushBack int_payload 0 (Ext 3) ?s = Done () (emplaced 0 (Size 0 ?s) 3 ?s)"
    by (rule PushBack_quiet [OF inv _ nc quiet_payload_quiet(1) [OF qp]]) (simp add: deref_def)
  then obtain s' where push: "PushBack int_payload 0 (Ext 3) ?s = Done () s'" by blast
  note T = growth_policy [of ?s 0 int_payload _ _ "Ext 3"]
  from T [THEN conjunct1, THEN mp, OF conjI [OF inv full]] push
  have "Capacity 0 s' = max 1 (Capacity 0 ?s * 2)" by blast
  then have cap: "Capacity 0 s' = 4" using c by simp
  have einv: "invariant (objs ?e 0)" and ez: "Size 0 ?e = 0" and ec: "Capacity 0 ?e = 0"
    by (simp_all add: empty_machine_def Vector_default_def RawMemory_default_def invariant_def
        Size_def Capacity_def)
  have "push_capacities int_payload 0 [10, 20, 30, 40, 50] empty_machine \<noteq> None"
    by code_simp
  then obtain cs where pc: "push_capacities int_payload 0 [10, 20, 30, 40, 50] empty_machine = Some cs"
    by blast
  from growth_policy [of ?e 0 int_payload _ _ _ 10 20 30 40 50 cs, THEN conjunct2, THEN conjunct1, THEN mp,
      OF conjI [OF einv conjI [OF ez conjI [OF ec pc]]]]
  have "cs = [1, 2, 4, 4, 8]" .
  with pc push cap g full einv ez ec show ?thesis by blast
qed

section \<open>Assignment and move\<close>

lemma grown_fields:
  "v_size (grown p c xs) = length xs"
  "m_capacity (v_data (grown p c xs)) = c"
  "m_buffer (v_data (grown p c xs)) = p"
  "m_slots (v_data (grown p c xs)) = map Live xs @ replicate (c - length xs) Raw"
  by (simp_all add: grown_def)

lemma Vector_copy_grown:
  assumes "length ys \<le> d"
  shows "Vector_copy P (grown q d ys) h
     = (if \<exists>y\<in>set ys. copy_ctor_throws P y then Thrown (if ys = [] then h else Suc h)
        else Done (grown (if ys = [] then 0 else Suc h) (length ys) ys) (if ys = [] then h else Suc h))"
proof -
  have "uninitialized_copy_n P (map Live ys @ replicate (d - length ys) Raw) 0 (length ys)
          (replicate (length ys) Raw) 0
        = (if \<exists>y\<in>set ys. copy_ctor_throws P y then Thrown (replicate (length ys) Raw)
           else Done () (map Live ys))"
    using uninitialized_copy_n_block [of P "[]" ys "replicate (d - length ys) Raw" "[]" "[]"] by simp
  then show ?thesis
    by (auto simp: Vector_copy_def RawMemory_sized_def Allocate_def grown_def)
qed





text \<open>
  C10.  Copy assignment and move assignment of a vector object to itself return with the
  whole state as it was.
\<close>

theorem self_assignment_unchanged:
  "copy_assign P this this s = Done () s \<and> move_assign this this s = Done () s"
  by (simp add: copy_assign_def move_assign_def)

text \<open>
  C4, as the claim states it, fails for move assignment: the operator swaps, so a source
  assigned to a non-empty destination is left with the destination's former block and
  size.
\<close>

theorem move_assign_leaves_source_nonempty:
  "move_assign 0 1 (machine_of (grown 1 1 [7::int]) (grown 2 2 [1, 2]))
     = Done () (Swap 0 1 (machine_of (grown 1 1 [7::int]) (grown 2 2 [1, 2]))) \<and>
   Size 1 (Swap 0 1 (machine_of (grown 1 1 [7::int]) (grown 2 2 [1, 2]))) = 1 \<and>
   Capacity 1 (Swap 0 1 (machine_of (grown 1 1 [7::int]) (grown 2 2 [1, 2]))) = 1"
  by (simp add: move_assign_def Swap_def machine_of_def Size_def Capacity_def grown_fields)

text \<open>
  C4, amended.  Move construction gives the new object the source's block and size and
  leaves the source with no block, capacity \<open>0\<close> and size \<open>0\<close>.  Move assignment between
  two distinct objects exchanges them: the destination holds the source's former block and
  size, and the source holds the destination's former block and size, so it is empty
  afterwards exactly when the destination was empty before.
\<close>

theorem move_transfers_storage:
  "Vector_move other = (\<lparr>v_data = v_data other, v_size = v_size other\<rparr>, Vector_default) \<and>
   v_size (snd (Vector_move other)) = 0 \<and> m_capacity (v_data (snd (Vector_move other))) = 0 \<and>
   (this \<noteq> rhs \<longrightarrow>
      (\<exists>s'. move_assign this rhs s = Done () s' \<and>
         objs s' this = objs s rhs \<and> objs s' rhs = objs s this \<and>
         (\<forall>a. a \<noteq> this \<and> a \<noteq> rhs \<longrightarrow> objs s' a = objs s a) \<and> heap s' = heap s \<and>
         (Size rhs s' = 0 \<and> Capacity rhs s' = 0 \<longleftrightarrow> Size this s = 0 \<and> Capacity this s = 0)))"
  by (simp add: Vector_move_def exchange_RawMemory_def RawMemory_move_assign_def RawMemory_move_def Vector_default_def RawMemory_default_def
      move_assign_def Swap_def Size_def Capacity_def)

theorem move_transfers_storage_witness:
  "(0::nat) \<noteq> 1 \<and>
   (\<exists>s'. move_assign 0 1 (machine_of Vector_default (grown 2 2 [1, 2::int])) = Done () s' \<and>
      objs s' 0 = grown 2 2 [1, 2] \<and> Size 1 s' = 0 \<and> Capacity 1 s' = 0)"
proof -
  let ?s = "machine_of Vector_default (grown 2 2 [1, 2::int])"
  have ne: "(0::nat) \<noteq> 1" by simp
  from move_transfers_storage [of _ 0 1 ?s, THEN conjunct2, THEN conjunct2, THEN conjunct2, THEN mp, OF ne]
  obtain s' where s': "move_assign 0 1 ?s = Done () s'" "objs s' 0 = objs ?s 1"
    "Size 1 s' = 0 \<and> Capacity 1 s' = 0 \<longleftrightarrow> Size 0 ?s = 0 \<and> Capacity 0 ?s = 0"
    by blast
  have "Size 0 ?s = 0 \<and> Capacity 0 ?s = 0"
    by (simp add: machine_of_def Size_def Capacity_def Vector_default_def RawMemory_default_def)
  with s' have "move_assign 0 1 ?s = Done () s' \<and> objs s' 0 = grown 2 2 [1, 2] \<and>
      Size 1 s' = 0 \<and> Capacity 1 s' = 0"
    by (simp add: machine_of_def)
  then show ?thesis using ne by blast
qed

section \<open>The invariant under the public operations\<close>


lemma invariant_heap_update [simp]: "objs (s\<lparr>heap := h\<rparr>) = objs s"
  by simp













lemma Vector_default_invariant: "invariant Vector_default"
  by (simp add: Vector_default_def RawMemory_default_def invariant_def)

lemma Vector_move_invariant:
  "invariant other \<Longrightarrow> invariant (fst (Vector_move other)) \<and> invariant (snd (Vector_move other))"
  by (simp add: Vector_move_def exchange_RawMemory_def RawMemory_move_assign_def RawMemory_move_def RawMemory_default_def invariant_def)

lemma Vector_copy_invariant:
  assumes "invariant other" and "Vector_copy P other h = Done v h'"
  shows "invariant v \<and> elements v = elements other"
proof -
  let ?ys = "elements other"
  have b: "m_slots (v_data other) = map Live ?ys @ replicate (m_capacity (v_data other) - v_size other) Raw"
    and l: "length ?ys = v_size other"
    using invariant_rep [OF assms(1)] by simp_all
  have le: "v_size other \<le> m_capacity (v_data other)" using assms(1) by (simp add: invariant_def)
  have "other = grown (m_buffer (v_data other)) (m_capacity (v_data other)) ?ys"
    using b l by (cases other, cases "v_data other") (simp add: grown_def)
  with Vector_copy_grown [of ?ys "m_capacity (v_data other)" P "m_buffer (v_data other)" h] l le assms(2)
  have "v = grown (if ?ys = [] then 0 else Suc h) (length ?ys) ?ys"
    by (auto split: if_splits)
  then show ?thesis using grown_invariant [of ?ys "length ?ys"] by simp
qed

lemma Vector_sized_invariant:
  assumes "Vector_sized P n h = Done v h'"
  shows "invariant v \<and> v_size v = n \<and> m_capacity (v_data v) = n"
proof -
  from assms obtain b p where u: "uninitialized_value_construct_n P (replicate n Raw) 0 n = Done () b"
    and v: "v = \<lparr>v_data = \<lparr>m_buffer = p, m_capacity = n, m_slots = b\<rparr>, v_size = n\<rparr>"
    by (auto simp: Vector_sized_def RawMemory_sized_def Allocate_def split: result.splits if_splits)
  have "\<exists>xs. length xs = n \<and> b = map Live xs"
  proof (cases "value_init P")
    case None
    show ?thesis
    proof (cases "n = 0")
      case True
      with u show ?thesis by simp
    next
      case False
      with None u uninitialized_value_construct_n_thrown [of P n "[]" "[]"] show ?thesis by simp
    qed
  next
    case (Some x)
    with u uninitialized_value_construct_n_done [of P x "[]" n "[]"]
    have "b = map Live (replicate n x)" by (simp add: map_replicate)
    then show ?thesis by (intro exI [of _ "replicate n x"]) simp
  qed
  then obtain xs where xs: "length xs = n" "b = map Live xs" by blast
  from invariant_intro(1) [of v xs 0] xs v show ?thesis by simp
qed






text \<open>
  C8.  The invariant does not survive every public operation.  Take a copy-only payload
  whose copy assignment throws on the value \<open>13\<close> and whose copy constructor never throws.
  Three \<^verbatim>\<open>PushBack\<close> calls build the vector \<open>13, 2, 3\<close> with capacity \<open>4\<close>, which
  satisfies the invariant.  \<^verbatim>\<open>Insert(begin(), 7)\<close> has room and is not at the end: it
  constructs a new last element in slot \<open>3\<close>, and \<^verbatim>\<open>move_backward\<close> then throws when it
  assigns from the \<open>13\<close>.  The exception leaves \<^verbatim>\<open>size_\<close> at \<open>3\<close> with a constructed object
  in slot \<open>3\<close>: the slots from the size on are not all raw.  (The lemmas above show
  that every operation that returns, and every exception path outside this branch of
  \<^verbatim>\<open>Emplace\<close>, preserves the invariant.)
\<close>

theorem Insert_exception_breaks_invariant:
  "(case push_all assign_throwing_payload 0 [13, 2, 3] empty_machine of
      Done u s \<Rightarrow>
        invariant (objs s 0) \<and> Size 0 s = 3 \<and> Capacity 0 s = 4 \<and>
        slots_of 0 s = [Live 13, Live 2, Live 3, Raw] \<and>
        (case Insert assign_throwing_payload 0 0 (Ext 7) s of
           Done i s' \<Rightarrow> False
         | Thrown s' \<Rightarrow>
             Size 0 s' = 3 \<and> Capacity 0 s' = 4 \<and>
             slots_of 0 s' = [Live 13, Live 2, Live 2, Live 3] \<and>
             \<not> invariant (objs s' 0)
         | Abort \<Rightarrow> False)
    | Thrown s \<Rightarrow> False
    | Abort \<Rightarrow> False)"
  by code_simp

end
